theory Spec2Isabelle
  imports Main "HOL-Library.Word"
begin

section \<open>Machine types\<close>

text \<open>
  The block is compiled for a 64-bit target: \<open>size_t\<close> and \<open>char*\<close> are 64-bit words,
  \<open>uint32_t\<close> and \<open>uint8_t\<close> have their fixed widths. Arithmetic on them wraps around.
  Memory is byte addressed.
\<close>

type_synonym uint8_t = "8 word"
type_synonym uint32_t = "32 word"
type_synonym size_t = "64 word"
type_synonym addr = "64 word"
type_synonym memory = "addr \<Rightarrow> uint8_t"

section \<open>Data model of \<open>row_block.h\<close>\<close>

text \<open>\<open>struct RowBlockInfo\<close>; the field \<open>row_num\<close> is named \<open>info_row_num\<close> here, since
  \<open>row_num\<close> is the accessor of the block.\<close>

record RowBlockInfo =
  info_checksum :: uint32_t
  info_row_num :: uint32_t
  info_null_supported :: bool
  info_column_ids :: "uint32_t list"

text \<open>Modelled from the spec: the schema provider (\<open>TabletSchema\<close> is declared outside the
  header): an ordered list of columns, each with a value byte width and a nullability flag.
  The width is signed, since the layout computation rejects a zero or negative width.\<close>

record TabletColumn =
  col_width :: int
  col_nullable :: bool

type_synonym TabletSchema = "TabletColumn list"

text \<open>The private members of \<open>class RowBlock\<close>, each \<open>_name\<close> of the header as \<open>m_name\<close>.
  \<open>_mem_buf\<close> is a pointer: the bytes it points to live in the memory, not in the block.
  The memory tracker and the pool behind \<open>mem_pool()\<close> take no part in the operations below.\<close>

record RowBlock =
  m_capacity :: uint32_t
  m_info :: RowBlockInfo
  m_schema :: TabletSchema
  m_null_supported :: bool
  m_mem_buf :: addr
  m_mem_buf_bytes :: size_t
  m_mem_row_bytes :: size_t
  m_field_offset_in_memory :: "size_t list"
  m_pos :: size_t
  m_limit :: size_t
  m_block_status :: uint8_t

section \<open>Accessors and the sequential cursor\<close>

definition row_num :: "RowBlock \<Rightarrow> uint32_t" where
  "row_num b = info_row_num (m_info b)"

definition row_block_info :: "RowBlock \<Rightarrow> RowBlockInfo" where
  "row_block_info b = m_info b"

definition capacity :: "RowBlock \<Rightarrow> size_t" where
  "capacity b = ucast (m_capacity b)"

definition pos :: "RowBlock \<Rightarrow> size_t" where
  "pos b = m_pos b"

definition set_pos :: "size_t \<Rightarrow> RowBlock \<Rightarrow> RowBlock" where
  "set_pos p b = b\<lparr>m_pos := p\<rparr>"

definition pos_inc :: "RowBlock \<Rightarrow> RowBlock" where
  "pos_inc b = b\<lparr>m_pos := m_pos b + 1\<rparr>"

definition limit :: "RowBlock \<Rightarrow> size_t" where
  "limit b = m_limit b"

definition set_limit :: "size_t \<Rightarrow> RowBlock \<Rightarrow> RowBlock" where
  "set_limit l b = b\<lparr>m_limit := l\<rparr>"

definition remaining :: "RowBlock \<Rightarrow> size_t" where
  "remaining b = m_limit b - m_pos b"

definition has_remaining :: "RowBlock \<Rightarrow> bool" where
  "has_remaining b = (m_pos b < m_limit b)"

definition block_status :: "RowBlock \<Rightarrow> uint8_t" where
  "block_status b = m_block_status b"

definition set_block_status :: "uint8_t \<Rightarrow> RowBlock \<Rightarrow> RowBlock" where
  "set_block_status s b = b\<lparr>m_block_status := s\<rparr>"

section \<open>Sequences of cursor calls\<close>

text \<open>A call of the sequential cursor that a consumer or the filter stage makes, and the
  run of a sequence of such calls. \<open>cursor_inv\<close> is the contract
  \<open>pos \<le> limit \<le> row_count\<close>; \<open>respects_contract\<close> says that a sequence keeps it at every state
  it passes through.\<close>

datatype cursor_call = Pos_inc | Set_limit size_t

fun cursor_step :: "cursor_call \<Rightarrow> RowBlock \<Rightarrow> RowBlock" where
  "cursor_step Pos_inc b = pos_inc b"
| "cursor_step (Set_limit l) b = set_limit l b"

fun cursor_run :: "cursor_call list \<Rightarrow> RowBlock \<Rightarrow> RowBlock" where
  "cursor_run [] b = b"
| "cursor_run (c # cs) b = cursor_run cs (cursor_step c b)"

definition cursor_inv :: "RowBlock \<Rightarrow> bool" where
  "cursor_inv b = (unat (pos b) \<le> unat (limit b) \<and> unat (limit b) \<le> unat (row_num b))"

fun respects_contract :: "cursor_call list \<Rightarrow> RowBlock \<Rightarrow> bool" where
  "respects_contract [] b = cursor_inv b"
| "respects_contract (c # cs) b = (cursor_inv b \<and> respects_contract cs (cursor_step c b))"

section \<open>Memory and row cursors\<close>

text \<open>Modelled from the spec: the row cursor (\<open>RowCursor\<close> is declared in \<open>row_cursor.h\<close>,
  outside the header): a view that \<open>attach\<close> points at the byte address of a row. Its
  three-way comparison \<open>cmp\<close> is a parameter of the search below.\<close>

record RowCursor =
  row_ptr :: addr

text \<open>Modelled from the spec: \<open>RowCursor::attach\<close> (outside the header) points the cursor at
  a byte address.\<close>

definition attach :: "addr \<Rightarrow> RowCursor \<Rightarrow> RowCursor" where
  "attach a cursor = cursor\<lparr>row_ptr := a\<rparr>"

text \<open>The \<open>n\<close> bytes of the memory from \<open>src\<close> on, and the memory after writing a list of
  bytes from \<open>dst\<close> on.\<close>

definition read_bytes :: "memory \<Rightarrow> addr \<Rightarrow> nat \<Rightarrow> uint8_t list" where
  "read_bytes h src n = map (\<lambda>k. h (src + of_nat k)) [0..<n]"

primrec write_bytes :: "memory \<Rightarrow> addr \<Rightarrow> uint8_t list \<Rightarrow> memory" where
  "write_bytes h dst [] = h"
| "write_bytes h dst (x # xs) = write_bytes (h(dst := x)) (dst + 1) xs"

text \<open>\<open>memcpy(dst, src, n)\<close>. Its behaviour is undefined when a range runs off the address
  space or the two ranges overlap: \<open>None\<close>.\<close>

definition regions_disjoint :: "addr \<Rightarrow> addr \<Rightarrow> nat \<Rightarrow> bool" where
  "regions_disjoint dst src n =
     (unat dst + n \<le> 2 ^ 64 \<and> unat src + n \<le> 2 ^ 64 \<and>
      (unat dst + n \<le> unat src \<or> unat src + n \<le> unat dst))"

definition memcpy :: "memory \<Rightarrow> addr \<Rightarrow> addr \<Rightarrow> nat \<Rightarrow> memory option" where
  "memcpy h dst src n =
     (if regions_disjoint dst src n then Some (write_bytes h dst (read_bytes h src n))
      else None)"

section \<open>Random access\<close>

text \<open>\<open>get_row\<close> only computes an address and attaches the cursor to it; nothing is read.\<close>

definition get_row :: "RowBlock \<Rightarrow> uint32_t \<Rightarrow> RowCursor \<Rightarrow> RowCursor" where
  "get_row b row_index cursor =
     attach (m_mem_buf b + ucast row_index * m_mem_row_bytes b) cursor"

text \<open>Slot \<open>row_index\<close> lies inside the allocated buffer. Outside it the \<open>memcpy\<close> of
  \<open>set_row\<close> writes to memory the block does not own, which is undefined.\<close>

definition slot_in_buffer :: "RowBlock \<Rightarrow> uint32_t \<Rightarrow> bool" where
  "slot_in_buffer b row_index =
     (unat (m_mem_buf b) + unat (m_mem_buf_bytes b) \<le> 2 ^ 64 \<and>
      (unat row_index + 1) * unat (m_mem_row_bytes b) \<le> unat (m_mem_buf_bytes b))"

text \<open>\<open>set_row\<close> is a \<open>const\<close> method: it writes through \<open>_mem_buf\<close> into the memory and
  leaves the members of the block alone. \<open>row\<close> is the source row, read at \<open>row_ptr()\<close>.\<close>

definition set_row :: "memory \<Rightarrow> RowBlock \<Rightarrow> uint32_t \<Rightarrow> RowCursor \<Rightarrow> memory option" where
  "set_row h b row_index row =
     (if slot_in_buffer b row_index
      then memcpy h (m_mem_buf b + ucast row_index * m_mem_row_bytes b) (row_ptr row)
             (unat (m_mem_row_bytes b))
      else None)"

text \<open>\<open>_field_offset_in_memory[col]\<close> is undefined beyond the end of the vector: \<open>None\<close>.\<close>

definition field_ptr :: "RowBlock \<Rightarrow> size_t \<Rightarrow> size_t \<Rightarrow> addr option" where
  "field_ptr b row col =
     (if unat col < length (m_field_offset_in_memory b)
      then Some (m_mem_buf b + m_mem_row_bytes b * row + m_field_offset_in_memory b ! unat col)
      else None)"

text \<open>Modelled from the spec: the buffer \<open>init\<close> allocates (body not in the header), of
  \<open>capacity * row_stride\<close> bytes: \<open>_mem_row_bytes\<close> bytes for each of the \<open>_capacity\<close>
  rows, inside the address space.\<close>

definition buffer_allocated :: "RowBlock \<Rightarrow> bool" where
  "buffer_allocated b =
     (unat (m_mem_buf_bytes b) = unat (m_capacity b) * unat (m_mem_row_bytes b) \<and>
      unat (m_mem_buf b) + unat (m_mem_buf_bytes b) \<le> 2 ^ 64)"

text \<open>Modelled from the spec: reading a field through an attached cursor (the field access of
  \<open>RowCursor\<close> is outside the header): \<open>len\<close> bytes at offset \<open>off\<close> of the row.\<close>

definition read_field :: "memory \<Rightarrow> RowCursor \<Rightarrow> nat \<Rightarrow> nat \<Rightarrow> uint8_t list" where
  "read_field h cursor off len = read_bytes h (row_ptr cursor + of_nat off) len"

section \<open>The comparator of the binary search\<close>

datatype ComparatorEnum = COMPARATOR_LESS | COMPARATOR_LARGER

text \<open>\<open>RowBlockComparator::_compare\<close>: attach the helper cursor to row \<open>index\<close>, then compare
  it with the key. \<open>attach\<close> overwrites the address of the helper and the result depends on
  nothing else of it, so the helper is not threaded through the calls.\<close>

definition compare ::
  "(memory \<Rightarrow> RowCursor \<Rightarrow> RowCursor \<Rightarrow> int) \<Rightarrow> memory \<Rightarrow> RowBlock \<Rightarrow> RowCursor \<Rightarrow>
     uint32_t \<Rightarrow> RowCursor \<Rightarrow> ComparatorEnum \<Rightarrow> bool" where
  "compare cmp h container helper_cursor index key comparator_enum =
     (let helper = get_row container index helper_cursor in
      if comparator_enum = COMPARATOR_LESS then cmp h helper key < 0
      else cmp h helper key > 0)"

definition comparator_less ::
  "(memory \<Rightarrow> RowCursor \<Rightarrow> RowCursor \<Rightarrow> int) \<Rightarrow> memory \<Rightarrow> RowBlock \<Rightarrow> RowCursor \<Rightarrow>
     uint32_t \<Rightarrow> RowCursor \<Rightarrow> bool" where
  "comparator_less cmp h container helper_cursor index key =
     compare cmp h container helper_cursor index key COMPARATOR_LESS"

definition comparator_larger ::
  "(memory \<Rightarrow> RowCursor \<Rightarrow> RowCursor \<Rightarrow> int) \<Rightarrow> memory \<Rightarrow> RowBlock \<Rightarrow> RowCursor \<Rightarrow>
     RowCursor \<Rightarrow> uint32_t \<Rightarrow> bool" where
  "comparator_larger cmp h container helper_cursor key index =
     compare cmp h container helper_cursor index key COMPARATOR_LARGER"

section \<open>Operations whose bodies are outside the header\<close>

text \<open>The header declares \<open>init\<close>, \<open>finalize\<close>, \<open>find_row\<close>, \<open>clear\<close> and
  \<open>_compute_layout\<close>; their bodies are in the implementation file. A failure status of the
  interface is a value of \<open>error\<close>, success is \<open>Inr\<close>.\<close>

datatype error = InvalidLayout | RowCountExceedsCapacity | InvariantViolation

text \<open>Modelled from the spec: the byte reserved for the null indicator of a column when null
  support is on (part of \<open>_compute_layout\<close>, whose body is not in the header).\<close>

definition null_byte :: "bool \<Rightarrow> nat" where
  "null_byte null_supported = (if null_supported then 1 else 0)"

text \<open>Modelled from the spec: the bytes of one column in a row (part of \<open>_compute_layout\<close>):
  the null indicator, if any, then the fixed value width.\<close>

definition field_bytes :: "bool \<Rightarrow> TabletColumn \<Rightarrow> nat" where
  "field_bytes null_supported c = null_byte null_supported + nat (col_width c)"

text \<open>Modelled from the spec: the loop of \<open>_compute_layout\<close> (body not in the header). Columns
  in their declared order, a running offset; with null support one byte for the null indicator
  precedes the value; the offset recorded for a column is that of its first byte; a column of
  zero or negative width is a failure.\<close>

fun layout_loop ::
  "bool \<Rightarrow> TabletSchema \<Rightarrow> nat \<Rightarrow> nat list \<Rightarrow> error + (nat \<times> nat list)" where
  "layout_loop null_supported [] offset offsets = Inr (offset, offsets)"
| "layout_loop null_supported (c # cs) offset offsets =
     (if col_width c \<le> 0 then Inl InvalidLayout
      else layout_loop null_supported cs
             (offset + field_bytes null_supported c) (offsets @ [offset]))"

text \<open>Modelled from the spec: \<open>_compute_layout\<close> (body not in the header): the loop from
  offset 0 and an empty table. The result is the row stride and the offset table.\<close>

definition compute_layout :: "TabletSchema \<Rightarrow> bool \<Rightarrow> error + (nat \<times> nat list)" where
  "compute_layout schema null_supported = layout_loop null_supported schema 0 []"

text \<open>Modelled from the spec: the state \<open>init\<close> establishes (body not in the header): the
  layout table and the row stride are those of \<open>compute_layout\<close> on the block's schema,
  stored in the \<open>size_t\<close> members, and the buffer of \<open>capacity * row_stride\<close> bytes is
  allocated.\<close>

definition block_initialized :: "RowBlock \<Rightarrow> bool" where
  "block_initialized b =
     (case compute_layout (m_schema b) (m_null_supported b) of
        Inl e \<Rightarrow> False
      | Inr (stride, offsets) \<Rightarrow>
          stride < 2 ^ 64 \<and> m_mem_row_bytes b = of_nat stride \<and>
          m_field_offset_in_memory b = map of_nat offsets \<and> buffer_allocated b)"

text \<open>Modelled from the spec: \<open>finalize\<close> (body not in the header): fixes the logical size
  and resets \<open>pos = 0\<close>, \<open>limit = row_count\<close>; the row count is bounded by the capacity, so
  a larger one is the failure status.\<close>

definition finalize :: "uint32_t \<Rightarrow> RowBlock \<Rightarrow> error + RowBlock" where
  "finalize n b =
     (if n > m_capacity b then Inl RowCountExceedsCapacity
      else Inr (b\<lparr>m_info := (m_info b)\<lparr>info_row_num := n\<rparr>, m_pos := 0, m_limit := ucast n\<rparr>))"

text \<open>Modelled from the spec: \<open>clear\<close> (body not in the header): resets \<open>row_count\<close>,
  \<open>pos\<close>, \<open>limit\<close> and \<open>status\<close> to the empty-but-allocated state and keeps the buffer.
  \<open>pos = 0\<close> and \<open>limit = 0\<close> there. The row count of that state and its status (the header
  starts a block with \<open>DEL_PARTIAL_SATISFIED\<close>, a constant declared outside it) are not given
  a value by the header: they are the parameters \<open>empty_row_num\<close> and \<open>del_partial_satisfied\<close>.\<close>

definition clear :: "uint32_t \<Rightarrow> uint8_t \<Rightarrow> RowBlock \<Rightarrow> RowBlock" where
  "clear empty_row_num del_partial_satisfied b =
     b\<lparr>m_info := (m_info b)\<lparr>info_row_num := empty_row_num\<rparr>, m_pos := 0, m_limit := 0,
       m_block_status := del_partial_satisfied\<rparr>"

text \<open>Modelled from the spec: the library-style lower-bound search of \<open>find_row\<close> (body not
  in the header) over the index range \<open>[first, first + len)\<close>, by halving. \<open>lt i\<close> is the
  less comparator at index \<open>i\<close>: row \<open>i\<close> is less than the key.\<close>

function lower_bound :: "(nat \<Rightarrow> bool) \<Rightarrow> nat \<Rightarrow> nat \<Rightarrow> nat" where
  "lower_bound lt first len =
     (if len = 0 then first
      else let half = len div 2; mid = first + half in
        if lt mid then lower_bound lt (mid + 1) (len - half - 1)
        else lower_bound lt first half)"
  by pat_completeness auto
termination
  by (relation "measure (\<lambda>(lt, first, len). len)") auto

text \<open>Modelled from the spec: the upper-bound search, with the larger comparator (the
  library's comparison of the key with the element).\<close>

function upper_bound :: "(nat \<Rightarrow> bool) \<Rightarrow> nat \<Rightarrow> nat \<Rightarrow> nat" where
  "upper_bound gt first len =
     (if len = 0 then first
      else let half = len div 2; mid = first + half in
        if gt mid then upper_bound gt first half
        else upper_bound gt (mid + 1) (len - half - 1))"
  by pat_completeness auto
termination
  by (relation "measure (\<lambda>(gt, first, len). len)") auto

declare lower_bound.simps [simp del]
declare upper_bound.simps [simp del]

text \<open>Modelled from the spec: the internal invariant \<open>find_row\<close> relies on: the rows
  \<open>[0, row_count)\<close> lie inside the allocated buffer. The search attaches the helper cursor
  to these rows and compares their bytes.\<close>

definition rows_in_buffer :: "RowBlock \<Rightarrow> bool" where
  "rows_in_buffer b =
     (unat (m_mem_buf b) + unat (m_mem_buf_bytes b) \<le> 2 ^ 64 \<and>
      unat (row_num b) * unat (m_mem_row_bytes b) \<le> unat (m_mem_buf_bytes b))"

text \<open>Modelled from the spec: the helper cursor \<open>find_row\<close> makes for itself (the
  constructor of \<open>RowCursor\<close> is outside the header): not attached to any row yet.\<close>

definition helper_cursor0 :: RowCursor where
  "helper_cursor0 = \<lparr>row_ptr = 0\<rparr>"

text \<open>Modelled from the spec: \<open>find_row\<close> (body not in the header): the search of the index
  range \<open>[0, row_count)\<close> through the comparator above, with a helper cursor of its own; the
  lower bound when \<open>find_last\<close> is false, the upper bound when it is true. The index goes
  back through the \<open>uint32_t\<close> out-parameter. A failure status is for a violated internal
  invariant only: here, a row count whose rows do not fit the buffer.\<close>

definition find_row ::
  "(memory \<Rightarrow> RowCursor \<Rightarrow> RowCursor \<Rightarrow> int) \<Rightarrow> memory \<Rightarrow> RowBlock \<Rightarrow> RowCursor \<Rightarrow> bool \<Rightarrow>
     error + uint32_t" where
  "find_row cmp h b key find_last =
     (if \<not> rows_in_buffer b then Inl InvariantViolation
      else if \<not> find_last
      then Inr (of_nat (lower_bound
                  (\<lambda>i. comparator_less cmp h b helper_cursor0 (of_nat i) key)
                  0 (unat (row_num b))))
      else Inr (of_nat (upper_bound
                  (\<lambda>i. comparator_larger cmp h b helper_cursor0 key (of_nat i))
                  0 (unat (row_num b)))))"

section \<open>Sorted blocks\<close>

text \<open>The cursors of the rows \<open>[0, row_count)\<close> in index order.\<close>

definition block_rows :: "RowBlock \<Rightarrow> RowCursor list" where
  "block_rows b = map (\<lambda>i. get_row b (of_nat i) helper_cursor0) [0..<unat (row_num b)]"

text \<open>Modelled from the spec: the contract of the cursor's comparison, a three-way comparison
  of a total order: swapping the arguments swaps the sign, and \<open>\<le>\<close> is transitive.\<close>

definition three_way_total :: "(RowCursor \<Rightarrow> RowCursor \<Rightarrow> int) \<Rightarrow> bool" where
  "three_way_total f =
     ((\<forall>x y. (f x y < 0) = (f y x > 0)) \<and>
      (\<forall>x y z. f x y \<le> 0 \<longrightarrow> f y z \<le> 0 \<longrightarrow> f x z \<le> 0))"

definition rows_sorted :: "(RowCursor \<Rightarrow> RowCursor \<Rightarrow> int) \<Rightarrow> RowBlock \<Rightarrow> bool" where
  "rows_sorted f b = sorted_wrt (\<lambda>x y. f x y \<le> 0) (block_rows b)"

definition count_less :: "(RowCursor \<Rightarrow> RowCursor \<Rightarrow> int) \<Rightarrow> RowBlock \<Rightarrow> RowCursor \<Rightarrow> nat" where
  "count_less f b q = length (filter (\<lambda>r. f r q < 0) (block_rows b))"

definition count_less_eq :: "(RowCursor \<Rightarrow> RowCursor \<Rightarrow> int) \<Rightarrow> RowBlock \<Rightarrow> RowCursor \<Rightarrow> nat" where
  "count_less_eq f b q = length (filter (\<lambda>r. f r q \<le> 0) (block_rows b))"

section \<open>Fill cycles\<close>

text \<open>The fill phase of a cycle: a sequence of \<open>set_row\<close> calls, each with its slot and its
  source row. It changes the memory only.\<close>

fun fill :: "(uint32_t \<times> RowCursor) list \<Rightarrow> memory \<Rightarrow> RowBlock \<Rightarrow> memory option" where
  "fill [] h b = Some h"
| "fill ((row_index, row) # rs) h b =
     (case set_row h b row_index row of None \<Rightarrow> None | Some h' \<Rightarrow> fill rs h' b)"

section \<open>The read accessors as calls on a state\<close>

text \<open>The state a call can touch: the memory, the block, and the cursor the caller hands to
  \<open>get_row\<close>. Each read accessor of the header is a \<open>const\<close> method; \<open>read_accessor\<close>
  gives its result and the state it leaves.\<close>

record world =
  w_mem :: memory
  w_block :: RowBlock
  w_cursor :: RowCursor

datatype read_call =
  Get_row uint32_t | Field_ptr size_t size_t | Row_num | Capacity | Pos | Limit
  | Remaining | Has_remaining | Block_status

datatype read_result =
  Void | Ptr "addr option" | U32 uint32_t | Size size_t | Bool bool | U8 uint8_t

fun read_accessor :: "read_call \<Rightarrow> world \<Rightarrow> read_result \<times> world" where
  "read_accessor (Get_row row_index) w =
     (Void, w\<lparr>w_cursor := get_row (w_block w) row_index (w_cursor w)\<rparr>)"
| "read_accessor (Field_ptr row col) w = (Ptr (field_ptr (w_block w) row col), w)"
| "read_accessor Row_num w = (U32 (row_num (w_block w)), w)"
| "read_accessor Capacity w = (Size (capacity (w_block w)), w)"
| "read_accessor Pos w = (Size (pos (w_block w)), w)"
| "read_accessor Limit w = (Size (limit (w_block w)), w)"
| "read_accessor Remaining w = (Size (remaining (w_block w)), w)"
| "read_accessor Has_remaining w = (Bool (has_remaining (w_block w)), w)"
| "read_accessor Block_status w = (U8 (block_status (w_block w)), w)"

section \<open>The scenario of the specification\<close>

text \<open>Schema: an INT key of 4 bytes and a VARCHAR value with a descriptor of 16 bytes; null
  support on, capacity 4. The block is in the state after the fill and \<open>finalize(4)\<close>, its
  buffer of 4 rows of 22 bytes at address 4096. The rows hold the keys 10, 20, 20, 30 (the low
  byte of the key follows the null indicator); three probe rows with the keys 20, 5 and 99 lie
  at 8192, 8214 and 8236.\<close>

definition scenario_schema :: TabletSchema where
  "scenario_schema =
     [\<lparr>col_width = 4, col_nullable = False\<rparr>, \<lparr>col_width = 16, col_nullable = True\<rparr>]"

definition scenario_block :: RowBlock where
  "scenario_block =
     \<lparr>m_capacity = 4,
      m_info = \<lparr>info_checksum = 0, info_row_num = 4, info_null_supported = True,
                info_column_ids = [0, 1]\<rparr>,
      m_schema = scenario_schema, m_null_supported = True,
      m_mem_buf = 4096, m_mem_buf_bytes = 88, m_mem_row_bytes = 22,
      m_field_offset_in_memory = [0, 5],
      m_pos = 0, m_limit = 4, m_block_status = 2\<rparr>"

definition scenario_memory :: memory where
  "scenario_memory =
     (\<lambda>a. 0)(4097 := 10, 4119 := 20, 4141 := 20, 4163 := 30,
              8193 := 20, 8215 := 5, 8237 := 99)"

definition key_20 :: RowCursor where "key_20 = \<lparr>row_ptr = 8192\<rparr>"
definition key_5 :: RowCursor where "key_5 = \<lparr>row_ptr = 8214\<rparr>"
definition key_99 :: RowCursor where "key_99 = \<lparr>row_ptr = 8236\<rparr>"

text \<open>A cursor comparison for the scenario: the three-way comparison of the low byte of the
  INT key of two rows.\<close>

definition key_byte_cmp :: "memory \<Rightarrow> RowCursor \<Rightarrow> RowCursor \<Rightarrow> int" where
  "key_byte_cmp h x y = int (unat (h (row_ptr x + 1))) - int (unat (h (row_ptr y + 1)))"

section \<open>The sequential cursor\<close>

lemma pos_inc_funpow_pos: "m_pos ((pos_inc ^^ n) b) = m_pos b + of_nat n"
  by (induction n) (simp_all add: pos_inc_def)

lemma pos_inc_funpow_limit: "m_limit ((pos_inc ^^ n) b) = m_limit b"
  by (induction n) (simp_all add: pos_inc_def)

lemma unat_pos_inc_funpow:
  assumes "unat (m_pos b) + n < 2 ^ 64"
  shows "unat (m_pos ((pos_inc ^^ n) b)) = unat (m_pos b) + n"
proof -
  have "unat (m_pos b + of_nat n) = (unat (m_pos b) + n) mod 2 ^ 64"
    by (simp add: unat_word_ariths unat_of_nat mod_add_right_eq)
  with assms show ?thesis by (simp add: pos_inc_funpow_pos)
qed


text \<open>
  Claim C3, as the code has it. After \<open>n\<close> calls of \<open>pos_inc\<close> (short of wrapping \<open>pos\<close>
  around \<open>2^64\<close>), \<open>has_remaining()\<close> holds exactly while \<open>pos + n < limit\<close>: it is false
  from the moment \<open>pos\<close> reaches \<open>limit\<close> and stays false under further increments.
  \<open>remaining()\<close> is the unsigned \<open>limit - pos\<close>: it is the number of rows left while
  \<open>pos \<le> limit\<close>, and once \<open>pos\<close> has passed \<open>limit\<close> it is \<open>2^64 - (pos - limit)\<close>, not 0.
\<close>

theorem pos_inc_drain:
  assumes "unat (pos b) + n < 2 ^ 64"
  shows "has_remaining ((pos_inc ^^ n) b) = (unat (pos b) + n < unat (limit b)) \<and>
         limit ((pos_inc ^^ n) b) = limit b \<and>
         (unat (pos b) + n \<le> unat (limit b) \<longrightarrow>
            unat (remaining ((pos_inc ^^ n) b)) = unat (limit b) - (unat (pos b) + n)) \<and>
         (unat (limit b) < unat (pos b) + n \<longrightarrow>
            unat (remaining ((pos_inc ^^ n) b)) = 2 ^ 64 - (unat (pos b) + n - unat (limit b)))"
proof -
  let ?b = "(pos_inc ^^ n) b"
  have p: "unat (m_pos ?b) = unat (m_pos b) + n"
    using assms by (simp add: unat_pos_inc_funpow pos_def)
  have l: "m_limit ?b = m_limit b" by (rule pos_inc_funpow_limit)
  have 1: "has_remaining ?b = (unat (pos b) + n < unat (limit b))"
    by (simp add: has_remaining_def word_less_nat_alt p l pos_def limit_def)
  have 2: "limit ?b = limit b" using l by (simp add: limit_def)
  have 3: "unat (remaining ?b) = unat (limit b) - (unat (pos b) + n)"
    if "unat (pos b) + n \<le> unat (limit b)"
  proof -
    have "m_pos ?b \<le> m_limit ?b"
      using that by (simp add: word_le_nat_alt p l pos_def limit_def)
    then have "unat (m_limit ?b - m_pos ?b) = unat (m_limit ?b) - unat (m_pos ?b)"
      by (rule unat_sub)
    then show ?thesis by (simp add: remaining_def p l pos_def limit_def)
  qed
  have 4: "unat (remaining ?b) = 2 ^ 64 - (unat (pos b) + n - unat (limit b))"
    if "unat (limit b) < unat (pos b) + n"
  proof -
    have lt: "m_limit ?b < m_pos ?b"
      using that by (simp add: word_less_nat_alt p l pos_def limit_def)
    have "unat (m_limit ?b - m_pos ?b) = 2 ^ 64 + unat (m_limit ?b) - unat (m_pos ?b)"
      using lt by (simp add: unat_sub_if' word_less_nat_alt)
    then show ?thesis using that assms by (simp add: remaining_def p l pos_def limit_def)
  qed
  from 1 2 3 4 show ?thesis by blast
qed

theorem pos_inc_drain_witness:
  "unat (pos (set_limit 2 scenario_block)) + 4 < (2 :: nat) ^ 64 \<and>
   has_remaining ((pos_inc ^^ 4) (set_limit 2 scenario_block)) = False \<and>
   unat (remaining ((pos_inc ^^ 4) (set_limit 2 scenario_block))) = 18446744073709551614"
proof -
  have p: "unat (pos (set_limit 2 scenario_block)) = 0"
    and l: "unat (limit (set_limit 2 scenario_block)) = 2"
    by (simp_all add: pos_def limit_def set_limit_def scenario_block_def)
  have h: "unat (pos (set_limit 2 scenario_block)) + 4 < (2 :: nat) ^ 64" by (simp add: p)
  from pos_inc_drain[OF h] show ?thesis by (simp add: p l)
qed

text \<open>
  Claim C3 as stated fails: in the scenario of the specification, with \<open>limit\<close> set to 2 and
  \<open>pos_inc\<close> called four times, \<open>has_remaining()\<close> is false but \<open>remaining()\<close> is
  \<open>2^64 - 2\<close>, more than the limit: the subtraction of \<open>pos = 4\<close> from \<open>limit = 2\<close> wraps
  around. The increment itself wraps too: from \<open>pos = 2^64 - 1\<close>, where \<open>has_remaining()\<close> is
  false, one more \<open>pos_inc\<close> gives \<open>pos = 0\<close> and \<open>has_remaining()\<close> is true again.
\<close>

theorem remaining_past_limit_counterexample:
  "pos (pos_inc (pos_inc (pos_inc (pos_inc (set_limit 2 scenario_block))))) = 4 \<and>
   limit (pos_inc (pos_inc (pos_inc (pos_inc (set_limit 2 scenario_block))))) = 2 \<and>
   has_remaining (pos_inc (pos_inc (pos_inc (pos_inc (set_limit 2 scenario_block))))) = False \<and>
   remaining (pos_inc (pos_inc (pos_inc (pos_inc (set_limit 2 scenario_block)))))
     = 18446744073709551614 \<and>
   remaining (pos_inc (pos_inc (pos_inc (pos_inc (set_limit 2 scenario_block))))) \<noteq> 0 \<and>
   limit (pos_inc (pos_inc (pos_inc (pos_inc (set_limit 2 scenario_block)))))
     < remaining (pos_inc (pos_inc (pos_inc (pos_inc (set_limit 2 scenario_block))))) \<and>
   has_remaining (set_pos 18446744073709551615 (set_limit 2 scenario_block)) = False \<and>
   has_remaining (pos_inc (set_pos 18446744073709551615 (set_limit 2 scenario_block))) = True"
  by (simp add: has_remaining_def remaining_def pos_inc_def set_limit_def set_pos_def pos_def
      limit_def scenario_block_def)

lemma respects_contract_final: "respects_contract cs b \<Longrightarrow> cursor_inv (cursor_run cs b)"
  by (induction cs arbitrary: b) simp_all

lemma respects_contract_append:
  "respects_contract (cs @ ds) b \<Longrightarrow> respects_contract cs b"
  by (induction cs arbitrary: b) (cases ds, simp_all)


text \<open>
  Claim C4. In every state that a sequence of \<open>pos_inc\<close> and \<open>set_limit\<close> calls respecting
  \<open>pos \<le> limit \<le> row_count\<close> passes through, \<open>remaining() = limit() - pos()\<close>, also as a
  difference of integers, and \<open>has_remaining() = (pos() < limit())\<close>.
\<close>

theorem cursor_equations:
  assumes "respects_contract (cs @ ds) b"
  shows "remaining (cursor_run cs b) = limit (cursor_run cs b) - pos (cursor_run cs b) \<and>
         int (unat (remaining (cursor_run cs b))) =
           int (unat (limit (cursor_run cs b))) - int (unat (pos (cursor_run cs b))) \<and>
         has_remaining (cursor_run cs b) = (pos (cursor_run cs b) < limit (cursor_run cs b)) \<and>
         has_remaining (cursor_run cs b) =
           (unat (pos (cursor_run cs b)) < unat (limit (cursor_run cs b)))"
proof -
  let ?b = "cursor_run cs b"
  have "respects_contract cs b" using assms by (rule respects_contract_append)
  then have inv: "cursor_inv ?b" by (rule respects_contract_final)
  then have le: "m_pos ?b \<le> m_limit ?b"
    by (simp add: cursor_inv_def pos_def limit_def word_le_nat_alt)
  have "unat (m_limit ?b - m_pos ?b) = unat (m_limit ?b) - unat (m_pos ?b)"
    using le by (rule unat_sub)
  moreover have "unat (m_pos ?b) \<le> unat (m_limit ?b)" using le by (simp add: word_le_nat_alt)
  ultimately show ?thesis
    by (simp add: remaining_def limit_def pos_def has_remaining_def word_less_nat_alt)
qed

theorem cursor_equations_witness:
  "respects_contract ([Set_limit 2, Pos_inc] @ [Pos_inc]) scenario_block \<and>
   remaining (cursor_run [Set_limit 2, Pos_inc] scenario_block) = 1 \<and>
   has_remaining (cursor_run [Set_limit 2, Pos_inc] scenario_block) = True"
proof -
  have r: "respects_contract ([Set_limit 2, Pos_inc] @ [Pos_inc]) scenario_block"
    by (simp add: cursor_inv_def pos_def limit_def row_num_def pos_inc_def set_limit_def
        scenario_block_def)
  from cursor_equations[OF r] show ?thesis
    using r by (simp add: pos_def limit_def pos_inc_def set_limit_def scenario_block_def)
qed


section \<open>Random access: \<open>set_row\<close> and \<open>get_row\<close>\<close>

lemma write_bytes_apply:
  "unat dst + length xs \<le> 2 ^ 64 \<Longrightarrow>
   write_bytes h dst xs a =
     (if unat dst \<le> unat a \<and> unat a < unat dst + length xs then xs ! (unat a - unat dst) else h a)"
proof (induction xs arbitrary: h dst)
  case Nil
  then show ?case by auto
next
  case (Cons x xs)
  have eq: "(a = dst) = (unat a = unat dst)" by (simp add: word_unat_eq_iff)
  show ?case
  proof (cases "xs = []")
    case True
    then show ?thesis using eq by auto
  next
    case False
    with Cons.prems have lt: "unat dst + 1 < 2 ^ 64" by (cases xs) simp_all
    then have u: "unat (dst + 1) = unat dst + 1"
      using unat_add_lem[of dst 1] by simp
    have "unat (dst + 1) + length xs \<le> 2 ^ 64" using Cons.prems u by simp
    note ih = Cons.IH[OF this, of "h(dst := x)"]
    define h' where "h' = h(dst := x)"
    have w: "write_bytes h (dst) (x # xs) a = write_bytes h' (dst + 1) xs a"
      by (simp add: h'_def)
    have ih': "write_bytes h' (dst + 1) xs a =
       (if unat dst + 1 \<le> unat a \<and> unat a < unat dst + 1 + length xs
        then xs ! (unat a - (unat dst + 1)) else h' a)"
      unfolding h'_def using ih by (simp only: u)
    consider "unat a = unat dst" | "unat a < unat dst" | "unat dst < unat a" by linarith
    then show ?thesis
    proof cases
      case 1
      then have "a = dst" by (simp add: word_unat_eq_iff)
      then have "h' a = x" by (simp add: h'_def)
      then show ?thesis using 1 by (simp only: w ih') simp
    next
      case 2
      then have "a \<noteq> dst" by auto
      then have "h' a = h a" by (simp add: h'_def)
      then show ?thesis using 2 by (simp only: w ih') simp
    next
      case 3
      then have "a \<noteq> dst" by auto
      then have "h' a = h a" by (simp add: h'_def)
      then show ?thesis using 3 by (simp only: w ih') (auto simp: nth_Cons')
    qed
  qed
qed

lemma read_bytes_length [simp]: "length (read_bytes h src n) = n"
  by (simp add: read_bytes_def)

lemma read_bytes_nth: "k < n \<Longrightarrow> read_bytes h src n ! k = h (src + of_nat k)"
  by (simp add: read_bytes_def)


lemma unat_ucast_u32 [simp]: "unat (ucast (i :: uint32_t) :: size_t) = unat i"
proof -
  have "unat i < 2 ^ 32" using unsigned_less[of i] by simp
  then have "unat i < 2 ^ 64" by simp
  then show ?thesis by (simp add: unsigned_ucast_eq take_bit_nat_eq_self)
qed

lemma slot_bounds:
  assumes "buffer_allocated b" and "row_index < m_capacity b"
  shows "(unat row_index + 1) * unat (m_mem_row_bytes b) \<le> unat (m_mem_buf_bytes b)"
proof -
  have "unat row_index + 1 \<le> unat (m_capacity b)"
    using assms(2) by (simp add: word_less_nat_alt)
  then have "(unat row_index + 1) * unat (m_mem_row_bytes b)
      \<le> unat (m_capacity b) * unat (m_mem_row_bytes b)"
    by (rule mult_le_mono1)
  then show ?thesis using assms(1) by (simp add: buffer_allocated_def)
qed

lemma slot_in_buffer_allocated:
  "buffer_allocated b \<Longrightarrow> row_index < m_capacity b \<Longrightarrow> slot_in_buffer b row_index"
  using slot_bounds[of b row_index] by (simp add: slot_in_buffer_def buffer_allocated_def)

lemma slot_offset:
  assumes "slot_in_buffer b row_index"
  shows "unat (ucast row_index * m_mem_row_bytes b) = unat row_index * unat (m_mem_row_bytes b)"
proof -
  have "unat row_index * unat (m_mem_row_bytes b) \<le> unat (m_mem_buf_bytes b)"
    using assms by (simp add: slot_in_buffer_def)
  moreover have "unat (m_mem_buf_bytes b) < 2 ^ 64" using unsigned_less[of "m_mem_buf_bytes b"] by simp
  ultimately have "unat (ucast row_index :: size_t) * unat (m_mem_row_bytes b) < 2 ^ LENGTH(64)"
    by simp
  then show ?thesis using unat_mult_lem[of "ucast row_index :: size_t" "m_mem_row_bytes b"] by simp
qed

lemma slot_address:
  assumes "slot_in_buffer b row_index"
  shows "unat (m_mem_buf b + ucast row_index * m_mem_row_bytes b) =
         unat (m_mem_buf b) + unat row_index * unat (m_mem_row_bytes b) \<and>
         unat (m_mem_buf b) + unat row_index * unat (m_mem_row_bytes b) + unat (m_mem_row_bytes b)
           \<le> 2 ^ 64"
proof -
  let ?rb = "unat (m_mem_row_bytes b)"
  have le: "unat row_index * ?rb + ?rb \<le> unat (m_mem_buf_bytes b)"
    and sp: "unat (m_mem_buf b) + unat (m_mem_buf_bytes b) \<le> 2 ^ 64"
    using assms by (simp_all add: slot_in_buffer_def)
  have end_le: "unat (m_mem_buf b) + unat row_index * ?rb + ?rb \<le> 2 ^ 64"
    using le sp by linarith
  have off: "unat (ucast row_index * m_mem_row_bytes b) = unat row_index * ?rb"
    using assms by (rule slot_offset)
  have "unat (m_mem_buf b + ucast row_index * m_mem_row_bytes b) =
        unat (m_mem_buf b) + unat row_index * ?rb"
  proof (cases "?rb = 0")
    case True
    then have "m_mem_row_bytes b = 0" by (simp add: unat_eq_0)
    then show ?thesis by simp
  next
    case False
    then have "unat (m_mem_buf b) + unat (ucast row_index * m_mem_row_bytes b) < 2 ^ LENGTH(64)"
      using end_le off by simp
    then show ?thesis
      using unat_add_lem[of "m_mem_buf b" "ucast row_index * m_mem_row_bytes b"] off by simp
  qed
  then show ?thesis using end_le by simp
qed


lemma unat_add_of_nat:
  assumes "unat (a :: size_t) + m < 2 ^ 64"
  shows "unat (a + of_nat m) = unat a + m"
proof -
  have "unat (a + of_nat m) = (unat a + m) mod 2 ^ 64"
    by (simp add: unat_word_ariths unat_of_nat mod_add_right_eq)
  with assms show ?thesis by simp
qed

lemma set_row_apply:
  assumes sib: "slot_in_buffer b row_index"
    and dis: "regions_disjoint (m_mem_buf b + ucast row_index * m_mem_row_bytes b) (row_ptr row)
               (unat (m_mem_row_bytes b))"
    and lo: "lo = unat (m_mem_buf b) + unat row_index * unat (m_mem_row_bytes b)"
  shows "\<exists>h'. set_row h b row_index row = Some h' \<and>
          (\<forall>a. h' a = (if lo \<le> unat a \<and> unat a < lo + unat (m_mem_row_bytes b)
                        then h (row_ptr row + of_nat (unat a - lo)) else h a))"
proof -
  let ?rb = "unat (m_mem_row_bytes b)"
  let ?dst = "m_mem_buf b + ucast row_index * m_mem_row_bytes b"
  let ?h' = "write_bytes h ?dst (read_bytes h (row_ptr row) ?rb)"
  have adr: "unat ?dst = lo" and fit: "lo + ?rb \<le> 2 ^ 64"
    using slot_address[OF sib] lo by simp_all
  have s: "set_row h b row_index row = Some ?h'"
    using sib dis by (simp add: set_row_def memcpy_def)
  have "?h' a = (if lo \<le> unat a \<and> unat a < lo + ?rb
                 then h (row_ptr row + of_nat (unat a - lo)) else h a)" for a
  proof -
    have "unat ?dst + length (read_bytes h (row_ptr row) ?rb) \<le> 2 ^ 64"
      using adr fit by simp
    from write_bytes_apply[OF this, of h a]
    have wb: "?h' a = (if lo \<le> unat a \<and> unat a < lo + ?rb
                 then read_bytes h (row_ptr row) ?rb ! (unat a - lo) else h a)"
      by (simp only: adr read_bytes_length)
    show ?thesis
    proof (cases "lo \<le> unat a \<and> unat a < lo + ?rb")
      case True
      then have "unat a - lo < ?rb" by linarith
      then have "read_bytes h (row_ptr row) ?rb ! (unat a - lo)
                 = h (row_ptr row + of_nat (unat a - lo))"
        by (rule read_bytes_nth)
      then show ?thesis using True wb by (simp only: if_True)
    next
      case False
      then show ?thesis using wb by (simp only: if_False)
    qed
  qed
  with s show ?thesis by blast
qed


lemma read_field_nth:
  "k < len \<Longrightarrow> read_field h c off len ! k = h (row_ptr c + of_nat (off + k))"
  by (simp add: read_field_def read_bytes_nth add.assoc)

lemma read_field_length [simp]: "length (read_field h c off len) = len"
  by (simp add: read_field_def)

lemma row_ptr_get_row [simp]:
  "row_ptr (get_row b row_index cursor) = m_mem_buf b + ucast row_index * m_mem_row_bytes b"
  by (simp add: get_row_def attach_def)

lemma slot_order:
  assumes "(i :: uint32_t) < j"
  shows "unat i * rb + rb \<le> unat j * rb"
proof -
  have "unat i + 1 \<le> unat j" using assms by (simp add: word_less_nat_alt)
  then have "(unat i + 1) * rb \<le> unat j * rb" by (rule mult_le_mono1)
  then show ?thesis by (simp add: algebra_simps)
qed

text \<open>
  Claim C2. In a block whose buffer is allocated, for a slot \<open>row_index\<close> below the capacity
  (so for every index below the row count of a finalized block) and a source row that does not
  overlap the slot: \<open>set_row\<close> succeeds; \<open>get_row\<close> attaches the cursor to the byte address
  \<open>row_index * row_stride\<close> of the buffer; every field read through that cursor, at any offset
  and length inside the row, returns the bytes of the source row; every field of every other
  row reads as before, and so does every byte of the memory outside the slot.
\<close>

theorem set_row_get_row_roundtrip:
  assumes alloc: "buffer_allocated b"
    and idx: "row_index < m_capacity b"
    and dis: "regions_disjoint (m_mem_buf b + ucast row_index * m_mem_row_bytes b) (row_ptr row)
               (unat (m_mem_row_bytes b))"
  shows "\<exists>h'. set_row h b row_index row = Some h' \<and>
      unat (row_ptr (get_row b row_index cursor)) =
        unat (m_mem_buf b) + unat row_index * unat (m_mem_row_bytes b) \<and>
      (\<forall>off len. off + len \<le> unat (m_mem_row_bytes b) \<longrightarrow>
         read_field h' (get_row b row_index cursor) off len = read_field h row off len) \<and>
      (\<forall>j off len. j < m_capacity b \<and> j \<noteq> row_index \<and> off + len \<le> unat (m_mem_row_bytes b) \<longrightarrow>
         read_field h' (get_row b j cursor) off len = read_field h (get_row b j cursor) off len) \<and>
      (\<forall>a. \<not> (unat (m_mem_buf b) + unat row_index * unat (m_mem_row_bytes b) \<le> unat a \<and>
              unat a < unat (m_mem_buf b) + (unat row_index + 1) * unat (m_mem_row_bytes b)) \<longrightarrow>
         h' a = h a)"
proof -
  let ?rb = "unat (m_mem_row_bytes b)"
  define lo where "lo = unat (m_mem_buf b) + unat row_index * ?rb"
  have sib: "slot_in_buffer b row_index" using alloc idx by (rule slot_in_buffer_allocated)
  from set_row_apply[OF sib dis lo_def, of h] obtain h' where
    s: "set_row h b row_index row = Some h'" and
    h': "\<And>a. h' a = (if lo \<le> unat a \<and> unat a < lo + ?rb
                        then h (row_ptr row + of_nat (unat a - lo)) else h a)"
    by blast
  have adr: "unat (m_mem_buf b + ucast row_index * m_mem_row_bytes b) = lo"
    and fit: "lo + ?rb \<le> 2 ^ 64"
    using slot_address[OF sib] by (simp_all add: lo_def)
  have own: "read_field h' (get_row b row_index cursor) off len = read_field h row off len"
    if "off + len \<le> ?rb" for off len
  proof (rule nth_equalityI)
    show "length (read_field h' (get_row b row_index cursor) off len)
          = length (read_field h row off len)" by simp
  next
    fix k assume "k < length (read_field h' (get_row b row_index cursor) off len)"
    then have k: "k < len" by simp
    let ?a = "m_mem_buf b + ucast row_index * m_mem_row_bytes b + of_nat (off + k)"
    have "unat (m_mem_buf b + ucast row_index * m_mem_row_bytes b) + (off + k) < 2 ^ 64"
      using adr fit k that by linarith
    then have ua: "unat ?a = lo + (off + k)" using adr by (simp only: unat_add_of_nat)
    have "lo \<le> unat ?a \<and> unat ?a < lo + ?rb" using ua k that by linarith
    then have "h' ?a = h (row_ptr row + of_nat (unat ?a - lo))" by (subst h') (rule if_P)
    also have "unat ?a - lo = off + k" using ua by simp
    finally show "read_field h' (get_row b row_index cursor) off len ! k
                  = read_field h row off len ! k"
      using k by (simp only: read_field_nth row_ptr_get_row)
  qed
  have other: "read_field h' (get_row b j cursor) off len = read_field h (get_row b j cursor) off len"
    if j: "j < m_capacity b" and ne: "j \<noteq> row_index" and ol: "off + len \<le> ?rb" for j off len
  proof (rule nth_equalityI)
    show "length (read_field h' (get_row b j cursor) off len)
          = length (read_field h (get_row b j cursor) off len)" by simp
  next
    fix k assume "k < length (read_field h' (get_row b j cursor) off len)"
    then have k: "k < len" by simp
    have sj: "slot_in_buffer b j" using alloc j by (rule slot_in_buffer_allocated)
    let ?lj = "unat (m_mem_buf b) + unat j * ?rb"
    let ?a = "m_mem_buf b + ucast j * m_mem_row_bytes b + of_nat (off + k)"
    have adj: "unat (m_mem_buf b + ucast j * m_mem_row_bytes b) = ?lj"
      and fj: "?lj + ?rb \<le> 2 ^ 64"
      using slot_address[OF sj] by simp_all
    have "unat (m_mem_buf b + ucast j * m_mem_row_bytes b) + (off + k) < 2 ^ 64"
      using adj fj k ol by linarith
    then have ua: "unat ?a = ?lj + (off + k)" using adj by (simp only: unat_add_of_nat)
    have "\<not> (lo \<le> unat ?a \<and> unat ?a < lo + ?rb)"
    proof (cases "j < row_index")
      case True
      from slot_order[OF True, of ?rb] show ?thesis using ua k ol by (simp add: lo_def)
    next
      case False
      with ne have "row_index < j" by auto
      from slot_order[OF this, of ?rb] show ?thesis using ua by (simp add: lo_def)
    qed
    then have "h' ?a = h ?a" by (subst h') (rule if_not_P)
    then show "read_field h' (get_row b j cursor) off len ! k
               = read_field h (get_row b j cursor) off len ! k"
      using k by (simp only: read_field_nth row_ptr_get_row)
  qed
  have frame: "h' a = h a"
    if "\<not> (unat (m_mem_buf b) + unat row_index * ?rb \<le> unat a \<and>
            unat a < unat (m_mem_buf b) + (unat row_index + 1) * ?rb)" for a
  proof -
    have "(unat row_index + 1) * ?rb = unat row_index * ?rb + ?rb" by (simp add: algebra_simps)
    then have "\<not> (lo \<le> unat a \<and> unat a < lo + ?rb)"
      using that unfolding lo_def by linarith
    then show ?thesis by (subst h') (rule if_not_P)
  qed
  have "unat (row_ptr (get_row b row_index cursor)) = unat (m_mem_buf b) + unat row_index * ?rb"
    using adr by (simp add: lo_def)
  with s own other frame show ?thesis by blast
qed

theorem set_row_get_row_roundtrip_witness:
  "buffer_allocated scenario_block \<and> (1 :: uint32_t) < m_capacity scenario_block \<and>
   regions_disjoint (m_mem_buf scenario_block + ucast (1 :: uint32_t) * m_mem_row_bytes scenario_block)
     (row_ptr key_5) (unat (m_mem_row_bytes scenario_block)) \<and>
   set_row scenario_memory scenario_block 1 key_5 \<noteq> None \<and>
   row_ptr (get_row scenario_block 1 helper_cursor0) = 4118 \<and>
   read_field (the (set_row scenario_memory scenario_block 1 key_5))
     (get_row scenario_block 1 helper_cursor0) 1 4 = [5, 0, 0, 0] \<and>
   read_field (the (set_row scenario_memory scenario_block 1 key_5))
     (get_row scenario_block 2 helper_cursor0) 1 4 = [20, 0, 0, 0]"
proof -
  have a: "buffer_allocated scenario_block"
    by (simp add: buffer_allocated_def scenario_block_def)
  have i: "(1 :: uint32_t) < m_capacity scenario_block"
    by (simp add: scenario_block_def)
  have d: "regions_disjoint
      (m_mem_buf scenario_block + ucast (1 :: uint32_t) * m_mem_row_bytes scenario_block)
      (row_ptr key_5) (unat (m_mem_row_bytes scenario_block))"
    by (simp add: regions_disjoint_def scenario_block_def key_5_def)
  have rb: "unat (m_mem_row_bytes scenario_block) = 22" by (simp add: scenario_block_def)
  from set_row_get_row_roundtrip[OF a i d, of scenario_memory helper_cursor0]
  obtain h' where s: "set_row scenario_memory scenario_block 1 key_5 = Some h'"
    and own: "\<forall>off len. off + len \<le> unat (m_mem_row_bytes scenario_block) \<longrightarrow>
         read_field h' (get_row scenario_block 1 helper_cursor0) off len
           = read_field scenario_memory key_5 off len"
    and other: "\<forall>j off len. j < m_capacity scenario_block \<and> j \<noteq> 1 \<and>
           off + len \<le> unat (m_mem_row_bytes scenario_block) \<longrightarrow>
         read_field h' (get_row scenario_block j helper_cursor0) off len
           = read_field scenario_memory (get_row scenario_block j helper_cursor0) off len"
    by blast
  have o1: "read_field h' (get_row scenario_block 1 helper_cursor0) 1 4
            = read_field scenario_memory key_5 1 4"
    using own rb by simp
  have o2: "read_field h' (get_row scenario_block 2 helper_cursor0) 1 4
            = read_field scenario_memory (get_row scenario_block 2 helper_cursor0) 1 4"
  proof -
    have "(2 :: uint32_t) < m_capacity scenario_block \<and> (2 :: uint32_t) \<noteq> 1 \<and>
          1 + 4 \<le> unat (m_mem_row_bytes scenario_block)"
      by (simp add: scenario_block_def)
    with other show ?thesis by blast
  qed
  have v1: "read_field scenario_memory key_5 1 4 = [5, 0, 0, 0]"
    by (simp add: read_field_def read_bytes_def key_5_def scenario_memory_def upt_conv_Cons)
  have v2: "read_field scenario_memory (get_row scenario_block 2 helper_cursor0) 1 4
            = [20, 0, 0, 0]"
    by (simp add: read_field_def read_bytes_def scenario_block_def scenario_memory_def
        upt_conv_Cons)
  have p: "row_ptr (get_row scenario_block 1 helper_cursor0) = 4118"
    by (simp add: scenario_block_def)
  show ?thesis using a i d s o1 o2 v1 v2 p by simp
qed


section \<open>Binary search\<close>

lemma lower_bound_0 [simp]: "lower_bound lt first 0 = first"
  by (subst lower_bound.simps) simp

lemma upper_bound_0 [simp]: "upper_bound gt first 0 = first"
  by (subst upper_bound.simps) simp

lemma lower_bound_step:
  "len \<noteq> 0 \<Longrightarrow> lower_bound lt first len =
     (if lt (first + len div 2) then lower_bound lt (first + len div 2 + 1) (len - len div 2 - 1)
      else lower_bound lt first (len div 2))"
  by (subst lower_bound.simps) (simp add: Let_def)

lemma upper_bound_step:
  "len \<noteq> 0 \<Longrightarrow> upper_bound gt first len =
     (if gt (first + len div 2) then upper_bound gt first (len div 2)
      else upper_bound gt (first + len div 2 + 1) (len - len div 2 - 1))"
  by (subst upper_bound.simps) (simp add: Let_def)

lemma lower_bound_partition:
  assumes "\<forall>i j. first \<le> i \<and> i \<le> j \<and> j < first + len \<and> lt j \<longrightarrow> lt i"
  shows "first \<le> lower_bound lt first len \<and> lower_bound lt first len \<le> first + len \<and>
         (\<forall>i. first \<le> i \<and> i < lower_bound lt first len \<longrightarrow> lt i) \<and>
         (\<forall>i. lower_bound lt first len \<le> i \<and> i < first + len \<longrightarrow> \<not> lt i)"
  using assms
proof (induction lt first len rule: lower_bound.induct)
  case (1 lt first len)
  note mono = "1.prems"
  show ?case
  proof (cases "len = 0")
    case True
    then show ?thesis by auto
  next
    case False
    define half where "half = len div 2"
    define mid where "mid = first + half"
    have hl: "half < len" using False by (simp add: half_def)
    show ?thesis
    proof (cases "lt mid")
      case True
      have eq: "lower_bound lt first len = lower_bound lt (mid + 1) (len - half - 1)"
        using False True by (simp add: lower_bound_step half_def mid_def)
      have mono': "\<forall>i j. mid + 1 \<le> i \<and> i \<le> j \<and> j < mid + 1 + (len - half - 1) \<and> lt j \<longrightarrow> lt i"
      proof (intro allI impI)
        fix i j assume a: "mid + 1 \<le> i \<and> i \<le> j \<and> j < mid + 1 + (len - half - 1) \<and> lt j"
        then have "first \<le> i \<and> i \<le> j \<and> j < first + len \<and> lt j"
          using hl by (simp add: mid_def)
        with mono show "lt i" by blast
      qed
      note ih = "1.IH"(1)[OF False half_def mid_def True mono']
      have below: "lt i" if "first \<le> i" "i \<le> mid" for i
      proof -
        have "first \<le> i \<and> i \<le> mid \<and> mid < first + len \<and> lt mid"
          using that True hl by (simp add: mid_def)
        with mono show ?thesis by blast
      qed
      have e: "mid + 1 + (len - half - 1) = first + len" using hl by (simp add: mid_def)
      have fm: "first \<le> mid" by (simp add: mid_def)
      have ih1: "mid + 1 \<le> lower_bound lt (mid + 1) (len - half - 1)"
        and ih2: "lower_bound lt (mid + 1) (len - half - 1) \<le> mid + 1 + (len - half - 1)"
        using ih by blast+
      have r1: "first \<le> lower_bound lt (mid + 1) (len - half - 1)" using ih1 fm by linarith
      have r2: "lower_bound lt (mid + 1) (len - half - 1) \<le> first + len" using ih2 e by linarith
      have r3: "lt i" if "first \<le> i" "i < lower_bound lt (mid + 1) (len - half - 1)" for i
      proof (cases "i \<le> mid")
        case True
        then show ?thesis using below that by blast
      next
        case False
        then have "mid + 1 \<le> i" by simp
        then show ?thesis using ih that by blast
      qed
      have r4: "\<not> lt i" if "lower_bound lt (mid + 1) (len - half - 1) \<le> i" "i < first + len" for i
        using ih that e by auto
      show ?thesis unfolding eq using r1 r2 r3 r4 by blast
    next
      case nlt: False
      have eq: "lower_bound lt first len = lower_bound lt first half"
        using False nlt by (simp add: lower_bound_step half_def mid_def)
      have mono': "\<forall>i j. first \<le> i \<and> i \<le> j \<and> j < first + half \<and> lt j \<longrightarrow> lt i"
      proof (intro allI impI)
        fix i j assume a: "first \<le> i \<and> i \<le> j \<and> j < first + half \<and> lt j"
        then have "first \<le> i \<and> i \<le> j \<and> j < first + len \<and> lt j"
          using hl by simp
        with mono show "lt i" by blast
      qed
      note ih = "1.IH"(2)[OF False half_def mid_def nlt mono']
      have above: "\<not> lt i" if "mid \<le> i" "i < first + len" for i
      proof
        assume "lt i"
        then have "first \<le> mid \<and> mid \<le> i \<and> i < first + len \<and> lt i"
          using that by (simp add: mid_def)
        with mono have "lt mid" by blast
        with nlt show False by simp
      qed
      have ih2: "lower_bound lt first half \<le> first + half" using ih by blast
      have r2: "lower_bound lt first half \<le> first + len" using ih2 hl by linarith
      have r4: "\<not> lt i" if "lower_bound lt first half \<le> i" "i < first + len" for i
      proof (cases "i < mid")
        case True
        then show ?thesis using ih that by (simp add: mid_def)
      next
        case False
        then show ?thesis using above that by simp
      qed
      show ?thesis unfolding eq using ih r2 r4 by blast
    qed
  qed
qed

lemma upper_bound_lower_bound:
  "upper_bound gt first len = lower_bound (\<lambda>i. \<not> gt i) first len"
proof (induction gt first len rule: upper_bound.induct)
  case (1 gt first len)
  show ?case
  proof (cases "len = 0")
    case True
    then show ?thesis by simp
  next
    case False
    show ?thesis
    proof (cases "gt (first + len div 2)")
      case True
      with False "1.IH"(1)[OF False refl refl True] show ?thesis
        by (simp add: upper_bound_step lower_bound_step)
    next
      case ngt: False
      with False "1.IH"(2)[OF False refl refl ngt] show ?thesis
        by (simp add: upper_bound_step lower_bound_step)
    qed
  qed
qed

lemma filter_prefix_count:
  assumes "r \<le> n" and "\<forall>i<r. Q i" and "\<forall>i. r \<le> i \<and> i < n \<longrightarrow> \<not> Q i"
  shows "length (filter Q [0..<n]) = r"
proof -
  have "[0..<n] = [0..<r] @ [r..<n]" using assms(1) by (metis le0 upt_add_eq_append le_add_diff_inverse)
  moreover have "filter Q [0..<r] = [0..<r]" using assms(2) by (simp add: filter_id_conv)
  moreover have "filter Q [r..<n] = []" using assms(3) by (simp add: filter_empty_conv)
  ultimately show ?thesis by simp
qed


lemma three_way_less_trans:
  assumes "three_way_total f" and "f x y \<le> 0" and "f y z < 0"
  shows "f x z < 0"
proof (rule ccontr)
  assume "\<not> f x z < 0"
  then have "\<not> f z x > 0" using assms(1) by (simp add: three_way_total_def)
  then have "f z x \<le> 0" by simp
  then have "f z y \<le> 0" using assms(1,2) unfolding three_way_total_def by blast
  then have "\<not> f z y > 0" by simp
  then have "\<not> f y z < 0" using assms(1) by (simp add: three_way_total_def)
  with assms(3) show False by simp
qed

lemma three_way_greater_trans:
  assumes "three_way_total f" and "f x y \<le> 0" and "f x z > 0"
  shows "f y z > 0"
proof (rule ccontr)
  assume "\<not> f y z > 0"
  then have "f y z \<le> 0" by simp
  then have "f x z \<le> 0" using assms(1,2) unfolding three_way_total_def by blast
  with assms(3) show False by simp
qed

lemma length_block_rows [simp]: "length (block_rows b) = unat (row_num b)"
  by (simp add: block_rows_def)

lemma block_rows_nth:
  "i < unat (row_num b) \<Longrightarrow> block_rows b ! i = get_row b (of_nat i) helper_cursor0"
  by (simp add: block_rows_def)

lemma rows_sorted_nth:
  assumes "three_way_total f" and "rows_sorted f b" and "i \<le> j" and "j < unat (row_num b)"
  shows "f (block_rows b ! i) (block_rows b ! j) \<le> 0"
proof (cases "i = j")
  case True
  have "\<not> f (block_rows b ! i) (block_rows b ! i) < 0"
    using assms(1) unfolding three_way_total_def by (metis less_asym)
  moreover have "\<not> f (block_rows b ! i) (block_rows b ! i) > 0"
    using assms(1) unfolding three_way_total_def by (metis less_asym)
  ultimately show ?thesis using True by simp
next
  case False
  with assms(3) have "i < j" by simp
  then show ?thesis
    using assms(2,4) by (simp add: rows_sorted_def sorted_wrt_iff_nth_less)
qed

lemma unat_of_nat_u32:
  assumes "r \<le> unat (n :: uint32_t)"
  shows "unat (of_nat r :: uint32_t) = r"
proof -
  have "unat n < 2 ^ 32" using unsigned_less[of n] by simp
  with assms have "r < 2 ^ 32" by simp
  then show ?thesis by (simp add: unat_of_nat)
qed



lemma lower_bound_from_0:
  assumes "\<forall>i j. i \<le> j \<and> j < n \<and> lt j \<longrightarrow> lt i"
  shows "lower_bound lt 0 n \<le> n \<and> (\<forall>i. i < lower_bound lt 0 n \<longrightarrow> lt i) \<and>
         (\<forall>i. lower_bound lt 0 n \<le> i \<and> i < n \<longrightarrow> \<not> lt i)"
proof -
  let ?r = "lower_bound lt 0 n"
  have m: "\<forall>i j. 0 \<le> i \<and> i \<le> j \<and> j < 0 + n \<and> lt j \<longrightarrow> lt i"
  proof (intro allI impI)
    fix i j assume "0 \<le> i \<and> i \<le> j \<and> j < 0 + n \<and> lt j"
    then have "i \<le> j \<and> j < n \<and> lt j" unfolding add_0 by (elim conjE) (intro conjI)
    with assms show "lt i" by blast
  qed
  from lower_bound_partition[OF m]
  have a: "?r \<le> 0 + n"
    and b: "\<forall>i. 0 \<le> i \<and> i < ?r \<longrightarrow> lt i"
    and c: "\<forall>i. ?r \<le> i \<and> i < 0 + n \<longrightarrow> \<not> lt i"
    by blast+
  have 1: "?r \<le> n" using a unfolding add_0 .
  have 2: "\<forall>i. i < ?r \<longrightarrow> lt i"
  proof (intro allI impI)
    fix i assume "i < ?r"
    then have "0 \<le> i \<and> i < ?r" by (intro conjI le0)
    with b show "lt i" by blast
  qed
  have 3: "\<forall>i. ?r \<le> i \<and> i < n \<longrightarrow> \<not> lt i" using c unfolding add_0 .
  from 1 2 3 show ?thesis by (intro conjI)
qed

lemma upper_bound_from_0:
  assumes "\<forall>i j. i \<le> j \<and> j < n \<and> gt i \<longrightarrow> gt j"
  shows "upper_bound gt 0 n \<le> n \<and> (\<forall>i. i < upper_bound gt 0 n \<longrightarrow> \<not> gt i) \<and>
         (\<forall>i. upper_bound gt 0 n \<le> i \<and> i < n \<longrightarrow> gt i)"
proof -
  have m: "\<forall>i j. i \<le> j \<and> j < n \<and> \<not> gt j \<longrightarrow> \<not> gt i" using assms by blast
  from lower_bound_from_0[of n "\<lambda>i. \<not> gt i", OF m]
  have a: "lower_bound (\<lambda>i. \<not> gt i) 0 n \<le> n"
    and b: "\<forall>i. i < lower_bound (\<lambda>i. \<not> gt i) 0 n \<longrightarrow> \<not> gt i"
    and c: "\<forall>i. lower_bound (\<lambda>i. \<not> gt i) 0 n \<le> i \<and> i < n \<longrightarrow> \<not> \<not> gt i"
    by blast+
  have c': "\<forall>i. lower_bound (\<lambda>i. \<not> gt i) 0 n \<le> i \<and> i < n \<longrightarrow> gt i" using c by blast
  show ?thesis unfolding upper_bound_lower_bound using a b c' by (intro conjI)
qed

lemma find_row_partition:
  assumes tw: "three_way_total (cmp h)" and srt: "rows_sorted (cmp h) b"
    and inb: "rows_in_buffer b"
  shows "\<exists>lo hi. find_row cmp h b q False = Inr lo \<and> find_row cmp h b q True = Inr hi \<and>
      unat lo = count_less (cmp h) b q \<and> unat hi = count_less_eq (cmp h) b q \<and>
      unat lo \<le> unat hi \<and> unat hi \<le> unat (row_num b) \<and>
      (\<forall>i. i < unat lo \<longrightarrow> cmp h (block_rows b ! i) q < 0) \<and>
      (\<forall>i. unat lo \<le> i \<and> i < unat (row_num b) \<longrightarrow> \<not> cmp h (block_rows b ! i) q < 0) \<and>
      (\<forall>i. i < unat hi \<longrightarrow> \<not> cmp h (block_rows b ! i) q > 0) \<and>
      (\<forall>i. unat hi \<le> i \<and> i < unat (row_num b) \<longrightarrow> cmp h (block_rows b ! i) q > 0)"
proof -
  let ?n = "unat (row_num b)"
  let ?g = "\<lambda>i. get_row b (of_nat i) helper_cursor0"
  let ?lt = "\<lambda>i. comparator_less cmp h b helper_cursor0 (of_nat i) q"
  let ?gt = "\<lambda>i. comparator_larger cmp h b helper_cursor0 q (of_nat i)"
  define lo where "lo = lower_bound ?lt 0 ?n"
  define hi where "hi = upper_bound ?gt 0 ?n"
  have lt: "?lt i = (cmp h (?g i) q < 0)" for i
    by (simp add: comparator_less_def compare_def)
  have gt: "?gt i = (cmp h (?g i) q > 0)" for i
    by (simp add: comparator_larger_def compare_def)
  have row: "block_rows b ! i = ?g i" if "i < ?n" for i using that by (rule block_rows_nth)
  have le: "cmp h (?g i) (?g j) \<le> 0" if "i \<le> j" "j < ?n" for i j
    using rows_sorted_nth[OF tw srt that] that by (simp add: row)
  have mono_lt: "\<forall>i j. i \<le> j \<and> j < ?n \<and> ?lt j \<longrightarrow> ?lt i"
  proof (intro allI impI)
    fix i j assume a: "i \<le> j \<and> j < ?n \<and> ?lt j"
    then have l: "cmp h (?g i) (?g j) \<le> 0" using le by blast
    have "cmp h (?g j) q < 0" using a lt[of j] by blast
    with tw l have "cmp h (?g i) q < 0" by (rule three_way_less_trans)
    then show "?lt i" using lt[of i] by blast
  qed
  have mono_gt: "\<forall>i j. i \<le> j \<and> j < ?n \<and> ?gt i \<longrightarrow> ?gt j"
  proof (intro allI impI)
    fix i j assume a: "i \<le> j \<and> j < ?n \<and> ?gt i"
    then have l: "cmp h (?g i) (?g j) \<le> 0" using le by blast
    have "cmp h (?g i) q > 0" using a gt[of i] by blast
    with tw l have "cmp h (?g j) q > 0" by (rule three_way_greater_trans)
    then show "?gt j" using gt[of j] by blast
  qed
  have P: "lo \<le> ?n \<and> (\<forall>i. i < lo \<longrightarrow> ?lt i) \<and> (\<forall>i. lo \<le> i \<and> i < ?n \<longrightarrow> \<not> ?lt i)"
    unfolding lo_def by (rule lower_bound_from_0[OF mono_lt])
  have Q: "hi \<le> ?n \<and> (\<forall>i. i < hi \<longrightarrow> \<not> ?gt i) \<and> (\<forall>i. hi \<le> i \<and> i < ?n \<longrightarrow> ?gt i)"
    unfolding hi_def by (rule upper_bound_from_0[OF mono_gt])
  have lo_le: "lo \<le> ?n" using P by (rule conjunct1)
  have P2: "\<forall>i. i < lo \<longrightarrow> ?lt i" using P by (elim conjE)
  have P3: "\<forall>i. lo \<le> i \<and> i < ?n \<longrightarrow> \<not> ?lt i" using P by (elim conjE)
  have hi_le: "hi \<le> ?n" using Q by (rule conjunct1)
  have Q2: "\<forall>i. i < hi \<longrightarrow> \<not> ?gt i" using Q by (elim conjE)
  have Q3: "\<forall>i. hi \<le> i \<and> i < ?n \<longrightarrow> ?gt i" using Q by (elim conjE)
  have lo_below: "cmp h (?g i) q < 0" if "i < lo" for i
  proof -
    have "?lt i" using P2 that by (elim allE[of _ i] impE)
    then show ?thesis unfolding lt .
  qed
  have lo_above: "\<not> cmp h (?g i) q < 0" if "lo \<le> i" "i < ?n" for i
  proof -
    have "lo \<le> i \<and> i < ?n" using that by (intro conjI)
    with P3 have "\<not> ?lt i" by (elim allE[of _ i] impE)
    then show ?thesis unfolding lt .
  qed
  have hi_below: "\<not> cmp h (?g i) q > 0" if "i < hi" for i
  proof -
    have "\<not> ?gt i" using Q2 that by (elim allE[of _ i] impE)
    then show ?thesis unfolding gt .
  qed
  have hi_above: "cmp h (?g i) q > 0" if "hi \<le> i" "i < ?n" for i
  proof -
    have "hi \<le> i \<and> i < ?n" using that by (intro conjI)
    with Q3 have "?gt i" by (elim allE[of _ i] impE)
    then show ?thesis unfolding gt .
  qed
  have lo_hi: "lo \<le> hi"
  proof (rule ccontr)
    assume "\<not> lo \<le> hi"
    then have "hi < lo" by simp
    then have "cmp h (?g hi) q < 0" and "cmp h (?g hi) q > 0"
      using lo_below[of hi] hi_above[of hi] lo_le by simp_all
    then show False by simp
  qed
  have c1: "count_less (cmp h) b q = lo"
  proof -
    have "count_less (cmp h) b q = length (filter (\<lambda>i. cmp h (?g i) q < 0) [0..<?n])"
      by (simp add: count_less_def block_rows_def filter_map comp_def)
    also have "\<dots> = lo"
    proof (rule filter_prefix_count)
      show "lo \<le> ?n" by (rule lo_le)
      show "\<forall>i<lo. cmp h (?g i) q < 0" using lo_below by blast
      show "\<forall>i. lo \<le> i \<and> i < ?n \<longrightarrow> \<not> cmp h (?g i) q < 0" using lo_above by blast
    qed
    finally show ?thesis .
  qed
  have c2: "count_less_eq (cmp h) b q = hi"
  proof -
    have "count_less_eq (cmp h) b q = length (filter (\<lambda>i. cmp h (?g i) q \<le> 0) [0..<?n])"
      by (simp add: count_less_eq_def block_rows_def filter_map comp_def)
    also have "\<dots> = hi"
    proof (rule filter_prefix_count)
      show "hi \<le> ?n" by (rule hi_le)
      show "\<forall>i<hi. cmp h (?g i) q \<le> 0"
      proof (intro allI impI)
        fix i assume "i < hi"
        from hi_below[OF this] show "cmp h (?g i) q \<le> 0" by linarith
      qed
      show "\<forall>i. hi \<le> i \<and> i < ?n \<longrightarrow> \<not> cmp h (?g i) q \<le> 0"
      proof (intro allI impI)
        fix i assume "hi \<le> i \<and> i < ?n"
        then have "cmp h (?g i) q > 0" using hi_above by blast
        then show "\<not> cmp h (?g i) q \<le> 0" by linarith
      qed
    qed
    finally show ?thesis .
  qed
  have u1: "unat (of_nat lo :: uint32_t) = lo" using lo_le by (rule unat_of_nat_u32)
  have u2: "unat (of_nat hi :: uint32_t) = hi" using hi_le by (rule unat_of_nat_u32)
  have f1: "find_row cmp h b q False = Inr (of_nat lo)"
    using inb by (simp add: find_row_def lo_def)
  have f2: "find_row cmp h b q True = Inr (of_nat hi)"
    using inb by (simp add: find_row_def hi_def)
  have p1: "\<forall>i. i < lo \<longrightarrow> cmp h (block_rows b ! i) q < 0"
  proof (intro allI impI)
    fix i assume a: "i < lo"
    then have "i < ?n" using lo_le by linarith
    then have r: "block_rows b ! i = ?g i" by (rule row)
    show "cmp h (block_rows b ! i) q < 0" unfolding r by (rule lo_below[OF a])
  qed
  have p2: "\<forall>i. lo \<le> i \<and> i < ?n \<longrightarrow> \<not> cmp h (block_rows b ! i) q < 0"
  proof (intro allI impI)
    fix i assume a: "lo \<le> i \<and> i < ?n"
    then have x: "\<not> cmp h (?g i) q < 0" using lo_above by blast
    have r: "block_rows b ! i = ?g i" using a row by blast
    show "\<not> cmp h (block_rows b ! i) q < 0" unfolding r by (rule x)
  qed
  have p3: "\<forall>i. i < hi \<longrightarrow> \<not> cmp h (block_rows b ! i) q > 0"
  proof (intro allI impI)
    fix i assume a: "i < hi"
    then have "i < ?n" using hi_le by linarith
    then have r: "block_rows b ! i = ?g i" by (rule row)
    show "\<not> cmp h (block_rows b ! i) q > 0" unfolding r by (rule hi_below[OF a])
  qed
  have p4: "\<forall>i. hi \<le> i \<and> i < ?n \<longrightarrow> cmp h (block_rows b ! i) q > 0"
  proof (intro allI impI)
    fix i assume a: "hi \<le> i \<and> i < ?n"
    then have x: "cmp h (?g i) q > 0" using hi_above by blast
    have r: "block_rows b ! i = ?g i" using a row by blast
    show "cmp h (block_rows b ! i) q > 0" unfolding r by (rule x)
  qed
  have "find_row cmp h b q False = Inr (of_nat lo) \<and> find_row cmp h b q True = Inr (of_nat hi) \<and>
      unat (of_nat lo :: uint32_t) = count_less (cmp h) b q \<and>
      unat (of_nat hi :: uint32_t) = count_less_eq (cmp h) b q \<and>
      unat (of_nat lo :: uint32_t) \<le> unat (of_nat hi :: uint32_t) \<and>
      unat (of_nat hi :: uint32_t) \<le> ?n \<and>
      (\<forall>i. i < unat (of_nat lo :: uint32_t) \<longrightarrow> cmp h (block_rows b ! i) q < 0) \<and>
      (\<forall>i. unat (of_nat lo :: uint32_t) \<le> i \<and> i < ?n \<longrightarrow> \<not> cmp h (block_rows b ! i) q < 0) \<and>
      (\<forall>i. i < unat (of_nat hi :: uint32_t) \<longrightarrow> \<not> cmp h (block_rows b ! i) q > 0) \<and>
      (\<forall>i. unat (of_nat hi :: uint32_t) \<le> i \<and> i < ?n \<longrightarrow> cmp h (block_rows b ! i) q > 0)"
    unfolding u1 u2 c1 c2 using f1 f2 lo_hi hi_le p1 p2 p3 p4 by (intro conjI refl)
  then show ?thesis by (intro exI)
qed

lemma three_way_key_byte_cmp: "three_way_total (key_byte_cmp h)"
  by (auto simp: three_way_total_def key_byte_cmp_def)

lemma scenario_block_rows:
  "block_rows scenario_block =
     [\<lparr>row_ptr = 4096\<rparr>, \<lparr>row_ptr = 4118\<rparr>, \<lparr>row_ptr = 4140\<rparr>, \<lparr>row_ptr = 4162\<rparr>]"
  by (simp add: block_rows_def scenario_block_def row_num_def get_row_def attach_def
      helper_cursor0_def upt_conv_Cons)

lemma scenario_rows_sorted: "rows_sorted (key_byte_cmp scenario_memory) scenario_block"
  by (simp add: rows_sorted_def scenario_block_rows key_byte_cmp_def scenario_memory_def)

lemma scenario_rows_in_buffer: "rows_in_buffer scenario_block"
  by (simp add: rows_in_buffer_def scenario_block_def row_num_def)

text \<open>
  Claim C1. In a block whose rows \<open>[0, row_count)\<close> lie in its buffer and are sorted ascending
  by the cursor's three-way comparison, for every probe key \<open>q\<close>: \<open>find_row(q, false)\<close>
  succeeds with the number of rows that compare less than \<open>q\<close>, which is the smallest index
  whose row is not less than \<open>q\<close>; \<open>find_row(q, true)\<close> succeeds with the number of rows that
  compare less than or equal to \<open>q\<close>, which is the smallest index whose row is greater than
  \<open>q\<close>. The witness is the scenario of the specification, with a probe equal to a run of
  duplicates, one below all rows and one above all rows.
\<close>

theorem find_row_lower_upper_bound:
  assumes tw: "three_way_total (cmp h)" and srt: "rows_sorted (cmp h) b"
    and inb: "rows_in_buffer b"
  shows "\<exists>lo hi. find_row cmp h b q False = Inr lo \<and> find_row cmp h b q True = Inr hi \<and>
      unat lo = count_less (cmp h) b q \<and> unat hi = count_less_eq (cmp h) b q \<and>
      unat lo \<le> unat hi \<and> unat hi \<le> unat (row_num b) \<and>
      (\<forall>i. i < unat lo \<longrightarrow> cmp h (block_rows b ! i) q < 0) \<and>
      (\<forall>i. unat lo \<le> i \<and> i < unat (row_num b) \<longrightarrow> \<not> cmp h (block_rows b ! i) q < 0) \<and>
      (\<forall>i. i < unat hi \<longrightarrow> \<not> cmp h (block_rows b ! i) q > 0) \<and>
      (\<forall>i. unat hi \<le> i \<and> i < unat (row_num b) \<longrightarrow> cmp h (block_rows b ! i) q > 0)"
  using find_row_partition[where cmp=cmp and h=h, OF tw srt inb] .

theorem find_row_lower_upper_bound_witness:
  "find_row key_byte_cmp scenario_memory scenario_block key_20 False = Inr 1 \<and>
   find_row key_byte_cmp scenario_memory scenario_block key_20 True = Inr 3 \<and>
   find_row key_byte_cmp scenario_memory scenario_block key_5 False = Inr 0 \<and>
   find_row key_byte_cmp scenario_memory scenario_block key_99 False = Inr 4"
proof -
  note T = find_row_lower_upper_bound[where cmp=key_byte_cmp and h=scenario_memory,
      OF three_way_key_byte_cmp scenario_rows_sorted scenario_rows_in_buffer]
  have c20: "count_less (key_byte_cmp scenario_memory) scenario_block key_20 = 1"
    "count_less_eq (key_byte_cmp scenario_memory) scenario_block key_20 = 3"
    by (simp_all add: count_less_def count_less_eq_def scenario_block_rows key_byte_cmp_def
        scenario_memory_def key_20_def)
  have c5: "count_less (key_byte_cmp scenario_memory) scenario_block key_5 = 0"
    by (simp add: count_less_def scenario_block_rows key_byte_cmp_def scenario_memory_def
        key_5_def)
  have c99: "count_less (key_byte_cmp scenario_memory) scenario_block key_99 = 4"
    by (simp add: count_less_def scenario_block_rows key_byte_cmp_def scenario_memory_def
        key_99_def)
  from T[of key_20] obtain lo hi where
    "find_row key_byte_cmp scenario_memory scenario_block key_20 False = Inr lo"
    "find_row key_byte_cmp scenario_memory scenario_block key_20 True = Inr hi"
    "unat lo = count_less (key_byte_cmp scenario_memory) scenario_block key_20"
    "unat hi = count_less_eq (key_byte_cmp scenario_memory) scenario_block key_20"
    by blast
  then have r20: "find_row key_byte_cmp scenario_memory scenario_block key_20 False = Inr 1"
    "find_row key_byte_cmp scenario_memory scenario_block key_20 True = Inr 3"
    using c20 by (simp_all add: word_unat_eq_iff)
  from T[of key_5] obtain lo5 where
    "find_row key_byte_cmp scenario_memory scenario_block key_5 False = Inr lo5"
    "unat lo5 = count_less (key_byte_cmp scenario_memory) scenario_block key_5"
    by blast
  then have r5: "find_row key_byte_cmp scenario_memory scenario_block key_5 False = Inr 0"
    using c5 by (simp add: word_unat_eq_iff)
  from T[of key_99] obtain lo99 where
    "find_row key_byte_cmp scenario_memory scenario_block key_99 False = Inr lo99"
    "unat lo99 = count_less (key_byte_cmp scenario_memory) scenario_block key_99"
    by blast
  then have r99: "find_row key_byte_cmp scenario_memory scenario_block key_99 False = Inr 4"
    using c99 by (simp add: word_unat_eq_iff)
  from r20 r5 r99 show ?thesis by simp
qed

lemma length_filter_eq_length: "(length (filter P xs) = length xs) = list_all P xs"
proof (induction xs)
  case Nil
  then show ?case by simp
next
  case (Cons x xs)
  show ?case
  proof (cases "P x")
    case True
    then show ?thesis using Cons by simp
  next
    case False
    have "length (filter P xs) \<noteq> Suc (length xs)"
      using length_filter_le[of P xs] by linarith
    then show ?thesis using False by simp
  qed
qed

lemma finalize_rows_in_buffer:
  assumes "buffer_allocated b0" and "finalize k b0 = Inr b"
  shows "rows_in_buffer b \<and> row_num b = k"
proof -
  have le: "k \<le> m_capacity b0" and b: "b = b0\<lparr>m_info := (m_info b0)\<lparr>info_row_num := k\<rparr>,
      m_pos := 0, m_limit := ucast k\<rparr>"
    using assms(2) by (auto simp: finalize_def split: if_splits)
  have "unat k * unat (m_mem_row_bytes b0) \<le> unat (m_capacity b0) * unat (m_mem_row_bytes b0)"
    using le by (intro mult_le_mono1) (simp add: word_le_nat_alt)
  then show ?thesis using assms(1) by (simp add: b rows_in_buffer_def buffer_allocated_def row_num_def)
qed

text \<open>
  Claim C8. For a block finalized with \<open>k\<close> rows in its allocated buffer and sorted, and for
  every key, both searches succeed with an index of at most \<open>row_count\<close>; the lower bound is
  \<open>row_count\<close> exactly when no row is greater than or equal to the key, the upper bound is
  \<open>row_count\<close> exactly when no row is greater than the key. On any block whatsoever a failure
  status comes only with a violated internal invariant: the rows do not fit the buffer.
\<close>

theorem find_row_not_found_is_success:
  assumes alloc: "buffer_allocated b0" and fin: "finalize k b0 = Inr b"
    and tw: "three_way_total (cmp h)" and srt: "rows_sorted (cmp h) b"
  shows "\<exists>lo hi. find_row cmp h b q False = Inr lo \<and> find_row cmp h b q True = Inr hi \<and>
      row_num b = k \<and> lo \<le> row_num b \<and> hi \<le> row_num b \<and>
      (lo = row_num b) = list_all (\<lambda>r. \<not> cmp h r q \<ge> 0) (block_rows b) \<and>
      (hi = row_num b) = list_all (\<lambda>r. \<not> cmp h r q > 0) (block_rows b) \<and>
      (\<forall>b' find_last e. find_row cmp h b' q find_last = Inl e \<longrightarrow>
         e = InvariantViolation \<and> \<not> rows_in_buffer b')"
proof -
  have inb: "rows_in_buffer b" and rn: "row_num b = k"
    using finalize_rows_in_buffer[OF alloc fin] by simp_all
  from find_row_partition[where cmp=cmp and h=h, OF tw srt inb, of q] obtain lo hi where
    f1: "find_row cmp h b q False = Inr lo" and f2: "find_row cmp h b q True = Inr hi"
    and c1: "unat lo = count_less (cmp h) b q" and c2: "unat hi = count_less_eq (cmp h) b q"
    and le1: "unat lo \<le> unat hi" and le2: "unat hi \<le> unat (row_num b)"
    by blast
  have l1: "lo \<le> row_num b" using le1 le2 by (simp add: word_le_nat_alt)
  have l2: "hi \<le> row_num b" using le2 by (simp add: word_le_nat_alt)
  have e1: "(lo = row_num b) = list_all (\<lambda>r. \<not> cmp h r q \<ge> 0) (block_rows b)"
  proof -
    have "(lo = row_num b) = (unat lo = unat (row_num b))" by (simp add: word_unat_eq_iff)
    also have "\<dots> = (length (filter (\<lambda>r. cmp h r q < 0) (block_rows b))
                      = length (block_rows b))"
      by (simp add: c1 count_less_def)
    also have "\<dots> = list_all (\<lambda>r. cmp h r q < 0) (block_rows b)"
      by (rule length_filter_eq_length)
    finally show ?thesis by (simp add: not_le)
  qed
  have e2: "(hi = row_num b) = list_all (\<lambda>r. \<not> cmp h r q > 0) (block_rows b)"
  proof -
    have "(hi = row_num b) = (unat hi = unat (row_num b))" by (simp add: word_unat_eq_iff)
    also have "\<dots> = (length (filter (\<lambda>r. cmp h r q \<le> 0) (block_rows b))
                      = length (block_rows b))"
      by (simp add: c2 count_less_eq_def)
    also have "\<dots> = list_all (\<lambda>r. cmp h r q \<le> 0) (block_rows b)"
      by (rule length_filter_eq_length)
    finally show ?thesis by (simp add: not_less)
  qed
  have fail: "\<forall>b' find_last e. find_row cmp h b' q find_last = Inl e \<longrightarrow>
         e = InvariantViolation \<and> \<not> rows_in_buffer b'"
    by (auto simp: find_row_def split: if_splits)
  from f1 f2 rn l1 l2 e1 e2 fail show ?thesis by blast
qed

theorem find_row_not_found_is_success_witness:
  "buffer_allocated scenario_block \<and> finalize 4 scenario_block = Inr scenario_block \<and>
   find_row key_byte_cmp scenario_memory scenario_block key_99 False = Inr 4 \<and>
   find_row key_byte_cmp scenario_memory scenario_block key_99 True = Inr 4 \<and>
   row_num scenario_block = 4"
proof -
  have a: "buffer_allocated scenario_block"
    by (simp add: buffer_allocated_def scenario_block_def)
  have f: "finalize 4 scenario_block = Inr scenario_block"
    by (simp add: finalize_def scenario_block_def)
  have n1: "list_all (\<lambda>r. \<not> key_byte_cmp scenario_memory r key_99 \<ge> 0)
      (block_rows scenario_block)"
    by (simp add: scenario_block_rows key_byte_cmp_def scenario_memory_def key_99_def)
  have n2: "list_all (\<lambda>r. \<not> key_byte_cmp scenario_memory r key_99 > 0)
      (block_rows scenario_block)"
    by (simp add: scenario_block_rows key_byte_cmp_def scenario_memory_def key_99_def)
  from find_row_not_found_is_success[where cmp=key_byte_cmp and h=scenario_memory,
      OF a f three_way_key_byte_cmp scenario_rows_sorted, of key_99]
  obtain lo hi where
    "find_row key_byte_cmp scenario_memory scenario_block key_99 False = Inr lo"
    "find_row key_byte_cmp scenario_memory scenario_block key_99 True = Inr hi"
    "row_num scenario_block = 4"
    "(lo = row_num scenario_block) =
       list_all (\<lambda>r. \<not> key_byte_cmp scenario_memory r key_99 \<ge> 0) (block_rows scenario_block)"
    "(hi = row_num scenario_block) =
       list_all (\<lambda>r. \<not> key_byte_cmp scenario_memory r key_99 > 0) (block_rows scenario_block)"
    by blast
  then show ?thesis using a f n1 n2 by simp
qed


section \<open>Field layout\<close>

lemma layout_loop_ok:
  "\<forall>c\<in>set cs. 0 < col_width c \<Longrightarrow>
   layout_loop ns cs off acc =
     Inr (off + sum_list (map (field_bytes ns) cs),
          acc @ map (\<lambda>i. off + sum_list (map (field_bytes ns) (take i cs))) [0..<length cs])"
proof (induction cs arbitrary: off acc)
  case Nil
  then show ?case by simp
next
  case (Cons c cs)
  have pos: "\<not> col_width c \<le> 0" using Cons.prems by simp
  have rest: "\<forall>c\<in>set cs. 0 < col_width c" using Cons.prems by simp
  have "map (\<lambda>i. off + sum_list (map (field_bytes ns) (take i (c # cs)))) [0..<length (c # cs)]
        = off # map (\<lambda>i. off + field_bytes ns c + sum_list (map (field_bytes ns) (take i cs)))
                 [0..<length cs]"
    by (simp add: upt_conv_Cons map_Suc_upt[symmetric] del: upt_Suc) 
  then show ?case using pos Cons.IH[OF rest] by (simp add: add.assoc)
qed

lemma layout_loop_fail:
  "\<exists>c\<in>set cs. col_width c \<le> 0 \<Longrightarrow> layout_loop ns cs off acc = Inl InvalidLayout"
  by (induction cs arbitrary: off acc) auto

lemma field_bytes_pos: "0 < col_width c \<Longrightarrow> 0 < field_bytes ns c"
  by (simp add: field_bytes_def)

lemma prefix_sum_Suc:
  "i < length cs \<Longrightarrow>
   sum_list (map f (take (Suc i) cs)) = sum_list (map f (take i cs)) + f (cs ! i)"
  by (simp add: take_Suc_conv_app_nth)

lemma prefix_sum_mono:
  assumes "i \<le> j"
  shows "sum_list (map f (take i cs)) \<le> (sum_list (map f (take j cs)) :: nat)"
proof -
  have "take j cs = take i cs @ drop i (take j cs)"
    using assms by (metis append_take_drop_id min.absorb1 take_take)
  then have "sum_list (map f (take j cs)) =
             sum_list (map f (take i cs)) + sum_list (map f (drop i (take j cs)))"
    by (metis map_append sum_list_append)
  then show ?thesis by simp
qed

lemma prefix_sum_strict:
  assumes "i < j" and "j \<le> length cs" and "\<forall>c\<in>set cs. 0 < f c"
  shows "sum_list (map f (take i cs)) < (sum_list (map f (take j cs)) :: nat)"
proof -
  have i: "i < length cs" using assms by simp
  have "sum_list (map f (take (Suc i) cs)) = sum_list (map f (take i cs)) + f (cs ! i)"
    using i by (rule prefix_sum_Suc)
  moreover have "0 < f (cs ! i)" using assms(3) i by simp
  moreover have "sum_list (map f (take (Suc i) cs)) \<le> sum_list (map f (take j cs))"
    using assms(1) by (intro prefix_sum_mono) simp
  ultimately show ?thesis by linarith
qed


lemma compute_layout_ok:
  assumes "\<forall>c\<in>set schema. 0 < col_width c"
  shows "compute_layout schema ns =
     Inr (sum_list (map (field_bytes ns) schema),
          map (\<lambda>i. sum_list (map (field_bytes ns) (take i schema))) [0..<length schema])"
  using layout_loop_ok[OF assms, of ns 0 "[]"] by (simp add: compute_layout_def)

lemma compute_layout_fail:
  "\<exists>c\<in>set schema. col_width c \<le> 0 \<Longrightarrow> compute_layout schema ns = Inl InvalidLayout"
  by (simp add: compute_layout_def layout_loop_fail)

lemma compute_layout_Inr:
  assumes "compute_layout schema ns = Inr (stride, offsets)"
  shows "(\<forall>c\<in>set schema. 0 < col_width c) \<and>
         stride = sum_list (map (field_bytes ns) schema) \<and>
         offsets = map (\<lambda>i. sum_list (map (field_bytes ns) (take i schema))) [0..<length schema]"
proof -
  have all: "\<forall>c\<in>set schema. 0 < col_width c"
  proof (rule ccontr)
    assume "\<not> (\<forall>c\<in>set schema. 0 < col_width c)"
    then have "\<exists>c\<in>set schema. col_width c \<le> 0" by (auto simp: not_less)
    then have "compute_layout schema ns = Inl InvalidLayout" by (rule compute_layout_fail)
    with assms show False by simp
  qed
  from compute_layout_ok[OF all, of ns] assms show ?thesis using all by simp
qed

lemma field_end_le_stride:
  assumes "i < length cs"
  shows "sum_list (map f (take i cs)) + f (cs ! i) \<le> (sum_list (map f cs) :: nat)"
proof -
  have "sum_list (map f (take (Suc i) cs)) \<le> sum_list (map f (take (length cs) cs))"
    using assms by (intro prefix_sum_mono) simp
  then show ?thesis using assms by (simp add: prefix_sum_Suc)
qed

text \<open>
  Claim C5. For a schema whose columns all have a positive width, \<open>compute_layout\<close> succeeds:
  there is one offset per column, the first is 0, the offsets are strictly increasing, each is
  the sum of the bytes of the columns before it, and the row stride is the sum over all columns
  of the null byte (if null support is on) plus the value width. The offset of a column is that
  of its null indicator when null support is on and of its value otherwise: the null byte and
  the value bytes that start there end where the next column starts, or at the stride.
  For a schema with a column of zero or negative width \<open>compute_layout\<close> fails.
\<close>

theorem compute_layout_correct:
  "((\<forall>c\<in>set schema. 0 < col_width c) \<longrightarrow>
     (\<exists>stride offsets. compute_layout schema ns = Inr (stride, offsets) \<and>
        length offsets = length schema \<and>
        stride = sum_list (map (field_bytes ns) schema) \<and>
        (\<forall>i<length schema. offsets ! i = sum_list (map (field_bytes ns) (take i schema))) \<and>
        (schema \<noteq> [] \<longrightarrow> offsets ! 0 = 0) \<and>
        sorted_wrt (<) offsets \<and>
        (\<forall>i<length schema.
           offsets ! i + null_byte ns + nat (col_width (schema ! i)) =
             (if Suc i < length schema then offsets ! Suc i else stride)))) \<and>
   ((\<exists>c\<in>set schema. col_width c \<le> 0) \<longrightarrow> compute_layout schema ns = Inl InvalidLayout)"
proof (intro conjI impI)
  assume all: "\<forall>c\<in>set schema. 0 < col_width c"
  let ?f = "field_bytes ns"
  let ?stride = "sum_list (map ?f schema)"
  let ?offs = "map (\<lambda>i. sum_list (map ?f (take i schema))) [0..<length schema]"
  have pos: "\<forall>c\<in>set schema. 0 < ?f c" using all by (simp add: field_bytes_pos)
  have c: "compute_layout schema ns = Inr (?stride, ?offs)" using all by (rule compute_layout_ok)
  have len: "length ?offs = length schema" by simp
  have nth: "\<forall>i<length schema. ?offs ! i = sum_list (map ?f (take i schema))" by simp
  have zero: "schema \<noteq> [] \<longrightarrow> ?offs ! 0 = 0" by simp
  have inc: "sorted_wrt (<) ?offs"
  proof -
    have "?offs ! i < ?offs ! j" if "i < j" "j < length ?offs" for i j
    proof -
      have "sum_list (map ?f (take i schema)) < sum_list (map ?f (take j schema))"
        using that pos by (intro prefix_sum_strict) simp_all
      then show ?thesis using that by simp
    qed
    then show ?thesis by (simp only: sorted_wrt_iff_nth_less) blast
  qed
  have tile: "\<forall>i<length schema.
           ?offs ! i + null_byte ns + nat (col_width (schema ! i)) =
             (if Suc i < length schema then ?offs ! Suc i else ?stride)"
  proof (intro allI impI)
    fix i assume i: "i < length schema"
    have s: "sum_list (map ?f (take (Suc i) schema))
             = sum_list (map ?f (take i schema)) + ?f (schema ! i)"
      using i by (rule prefix_sum_Suc)
    show "?offs ! i + null_byte ns + nat (col_width (schema ! i)) =
             (if Suc i < length schema then ?offs ! Suc i else ?stride)"
    proof (cases "Suc i < length schema")
      case True
      then show ?thesis using i s by (simp add: field_bytes_def del: take_Suc_conv_app_nth)
    next
      case False
      then have "Suc i = length schema" using i by simp
      then have "take (Suc i) schema = schema" by simp
      then show ?thesis using i s False by (simp add: field_bytes_def)
    qed
  qed
  from c len nth zero inc tile
  show "\<exists>stride offsets. compute_layout schema ns = Inr (stride, offsets) \<and>
        length offsets = length schema \<and>
        stride = sum_list (map (field_bytes ns) schema) \<and>
        (\<forall>i<length schema. offsets ! i = sum_list (map (field_bytes ns) (take i schema))) \<and>
        (schema \<noteq> [] \<longrightarrow> offsets ! 0 = 0) \<and>
        sorted_wrt (<) offsets \<and>
        (\<forall>i<length schema.
           offsets ! i + null_byte ns + nat (col_width (schema ! i)) =
             (if Suc i < length schema then offsets ! Suc i else stride))"
    by blast
next
  assume "\<exists>c\<in>set schema. col_width c \<le> 0"
  then show "compute_layout schema ns = Inl InvalidLayout" by (rule compute_layout_fail)
qed

theorem compute_layout_correct_witness:
  "list_all (\<lambda>c. 0 < col_width c) scenario_schema \<and>
   compute_layout scenario_schema True = Inr (22, [0, 5]) \<and>
   compute_layout scenario_schema False = Inr (20, [0, 4]) \<and>
   compute_layout [\<lparr>col_width = 4, col_nullable = False\<rparr>, \<lparr>col_width = 0, col_nullable = True\<rparr>]
     True = Inl InvalidLayout"
proof -
  have a: "\<forall>c\<in>set scenario_schema. 0 < col_width c" by (simp add: scenario_schema_def)
  have b: "\<exists>c\<in>set [\<lparr>col_width = 4, col_nullable = False\<rparr>,
                     \<lparr>col_width = 0, col_nullable = True\<rparr>]. col_width c \<le> 0" by simp
  have len: "length scenario_schema = 2" by (simp add: scenario_schema_def)
  have two: "length xs = 2 \<Longrightarrow> xs = [xs ! 0, xs ! 1]" for xs :: "nat list"
    by (cases xs; cases "tl xs") auto
  have r: "compute_layout scenario_schema ns =
           Inr (2 * null_byte ns + 20, [0, null_byte ns + 4])" for ns
  proof -
    from compute_layout_correct[of scenario_schema ns] a
    obtain stride offsets where
      c: "compute_layout scenario_schema ns = Inr (stride, offsets)"
      and l: "length offsets = length scenario_schema"
      and s: "stride = sum_list (map (field_bytes ns) scenario_schema)"
      and n: "\<forall>i<length scenario_schema.
                offsets ! i = sum_list (map (field_bytes ns) (take i scenario_schema))"
      by blast
    have o0: "offsets ! 0 = 0" using n len by simp
    have o1: "offsets ! 1 = null_byte ns + 4"
      using n len by (simp add: scenario_schema_def field_bytes_def)
    have "offsets = [0, null_byte ns + 4]" using two[of offsets] l len o0 o1 by simp
    moreover have "stride = 2 * null_byte ns + 20"
      using s by (simp add: scenario_schema_def field_bytes_def)
    ultimately show ?thesis using c by simp
  qed
  have f: "compute_layout [\<lparr>col_width = 4, col_nullable = False\<rparr>,
             \<lparr>col_width = 0, col_nullable = True\<rparr>] True = Inl InvalidLayout"
    using compute_layout_correct[of "[\<lparr>col_width = 4, col_nullable = False\<rparr>,
             \<lparr>col_width = 0, col_nullable = True\<rparr>]" True] b by blast
  show ?thesis using a r[of True] r[of False] f
    by (simp add: null_byte_def list_all_iff)
qed

section \<open>Field addresses\<close>

lemma unat_of_nat_size:
  "n < 2 ^ 64 \<Longrightarrow> unat (of_nat n :: size_t) = n"
  by (simp add: unat_of_nat)

lemma block_initialized_layout:
  assumes "block_initialized b"
  shows "(\<forall>c\<in>set (m_schema b). 0 < col_width c) \<and> buffer_allocated b \<and>
         unat (m_mem_row_bytes b) =
           sum_list (map (field_bytes (m_null_supported b)) (m_schema b)) \<and>
         length (m_field_offset_in_memory b) = length (m_schema b) \<and>
         (\<forall>i<length (m_schema b). unat (m_field_offset_in_memory b ! i) =
            sum_list (map (field_bytes (m_null_supported b)) (take i (m_schema b))))"
proof -
  let ?ns = "m_null_supported b"
  let ?f = "field_bytes ?ns"
  from assms obtain stride offsets where
    c: "compute_layout (m_schema b) ?ns = Inr (stride, offsets)"
    and lt: "stride < 2 ^ 64" and rb: "m_mem_row_bytes b = of_nat stride"
    and fo: "m_field_offset_in_memory b = map of_nat offsets" and al: "buffer_allocated b"
    by (auto simp: block_initialized_def split: sum.splits)
  from compute_layout_Inr[OF c]
  have all: "\<forall>c\<in>set (m_schema b). 0 < col_width c"
    and st: "stride = sum_list (map ?f (m_schema b))"
    and of: "offsets = map (\<lambda>i. sum_list (map ?f (take i (m_schema b)))) [0..<length (m_schema b)]"
    by simp_all
  have u: "unat (m_mem_row_bytes b) = sum_list (map ?f (m_schema b))"
    using rb lt st by (simp add: unat_of_nat_size)
  have len: "length (m_field_offset_in_memory b) = length (m_schema b)"
    using fo of by simp
  have nth: "unat (m_field_offset_in_memory b ! i) = sum_list (map ?f (take i (m_schema b)))"
    if "i < length (m_schema b)" for i
  proof -
    have "sum_list (map ?f (take i (m_schema b))) \<le> sum_list (map ?f (take (length (m_schema b)) (m_schema b)))"
      using that by (intro prefix_sum_mono) simp
    then have "sum_list (map ?f (take i (m_schema b))) < 2 ^ 64" using lt st by simp
    moreover have "m_field_offset_in_memory b ! i = of_nat (sum_list (map ?f (take i (m_schema b))))"
      using that fo of by simp
    ultimately show ?thesis by (simp add: unat_of_nat_size)
  qed
  from all al u len nth show ?thesis by blast
qed

text \<open>
  Claim C9. In an initialized block, for every row below the capacity (so for every row below
  the row count of a finalized block) and every column of the schema, \<open>field_ptr(row, col)\<close>
  is the address \<open>buffer base + row * row_stride + offset of the column\<close>, computed without
  wrap-around; the offset is that of the column's first byte in the layout, which is its null
  indicator when null support is on and the start of its value otherwise; the null byte and
  the value lie inside the slot of that row, and the slot inside the buffer.
\<close>

theorem field_ptr_address:
  assumes init: "block_initialized b"
    and row: "unat row < unat (m_capacity b)"
    and col: "unat col < length (m_schema b)"
  shows "\<exists>a. field_ptr b row col = Some a \<and>
     unat a = unat (m_mem_buf b) + unat row * unat (m_mem_row_bytes b)
                + unat (m_field_offset_in_memory b ! unat col) \<and>
     unat (m_field_offset_in_memory b ! unat col) =
       sum_list (map (field_bytes (m_null_supported b)) (take (unat col) (m_schema b))) \<and>
     unat (m_field_offset_in_memory b ! unat col) + null_byte (m_null_supported b)
       + nat (col_width (m_schema b ! unat col)) \<le> unat (m_mem_row_bytes b) \<and>
     unat a + null_byte (m_null_supported b) + nat (col_width (m_schema b ! unat col))
       \<le> unat (m_mem_buf b) + (unat row + 1) * unat (m_mem_row_bytes b) \<and>
     unat (m_mem_buf b) + (unat row + 1) * unat (m_mem_row_bytes b)
       \<le> unat (m_mem_buf b) + unat (m_mem_buf_bytes b)"
proof -
  let ?ns = "m_null_supported b"
  let ?f = "field_bytes ?ns"
  let ?rb = "unat (m_mem_row_bytes b)"
  let ?off = "m_field_offset_in_memory b ! unat col"
  let ?base = "unat (m_mem_buf b)"
  from block_initialized_layout[OF init]
  have al: "buffer_allocated b"
    and rb: "?rb = sum_list (map ?f (m_schema b))"
    and len: "length (m_field_offset_in_memory b) = length (m_schema b)"
    and nth: "\<forall>i<length (m_schema b). unat (m_field_offset_in_memory b ! i) =
            sum_list (map ?f (take i (m_schema b)))"
    by blast+
  have off: "unat ?off = sum_list (map ?f (take (unat col) (m_schema b)))"
    using nth col by blast
  have fend: "unat ?off + ?f (m_schema b ! unat col) \<le> ?rb"
    unfolding off rb using col by (rule field_end_le_stride)
  have bytes: "unat (m_mem_buf_bytes b) = unat (m_capacity b) * ?rb"
    and fit: "?base + unat (m_mem_buf_bytes b) \<le> 2 ^ 64"
    using al by (simp_all add: buffer_allocated_def)
  have "unat row + 1 \<le> unat (m_capacity b)" using row by simp
  then have "(unat row + 1) * ?rb \<le> unat (m_capacity b) * ?rb" by (rule mult_le_mono1)
  then have slot: "(unat row + 1) * ?rb \<le> unat (m_mem_buf_bytes b)" using bytes by simp
  have e: "(unat row + 1) * ?rb = unat row * ?rb + ?rb" by (simp add: algebra_simps)
  have bb: "unat (m_mem_buf_bytes b) < 2 ^ 64" using unsigned_less[of "m_mem_buf_bytes b"] by simp
  have m: "unat (m_mem_row_bytes b * row) = ?rb * unat row"
  proof -
    have "?rb * unat row < 2 ^ LENGTH(64)" using slot e bb by (simp add: mult.commute)
    then show ?thesis using unat_mult_lem[of "m_mem_row_bytes b" row] by simp
  qed
  have fpos: "?f (m_schema b ! unat col) = null_byte ?ns + nat (col_width (m_schema b ! unat col))"
    by (simp add: field_bytes_def)
  have wpos: "0 < ?f (m_schema b ! unat col)"
    using block_initialized_layout[OF init] col by (simp add: field_bytes_pos)
  have lt_rb: "unat ?off < ?rb" using fend wpos by linarith
  have a1: "unat (m_mem_buf b + m_mem_row_bytes b * row) = ?base + unat row * ?rb"
  proof -
    have "?base + unat (m_mem_row_bytes b * row) < 2 ^ LENGTH(64)"
      using m slot e fit lt_rb by (simp add: mult.commute)
    then show ?thesis
      using unat_add_lem[of "m_mem_buf b" "m_mem_row_bytes b * row"] m by (simp add: mult.commute)
  qed
  have a2: "unat (m_mem_buf b + m_mem_row_bytes b * row + ?off) = ?base + unat row * ?rb + unat ?off"
  proof -
    have "unat (m_mem_buf b + m_mem_row_bytes b * row) + unat ?off < 2 ^ LENGTH(64)"
      using a1 slot e fit lt_rb by simp
    then show ?thesis
      using unat_add_lem[of "m_mem_buf b + m_mem_row_bytes b * row" ?off] a1 by simp
  qed
  have fp: "field_ptr b row col = Some (m_mem_buf b + m_mem_row_bytes b * row + ?off)"
    using col len by (simp add: field_ptr_def)
  have in_row: "?base + unat row * ?rb + unat ?off + null_byte ?ns
                  + nat (col_width (m_schema b ! unat col))
                \<le> ?base + (unat row + 1) * ?rb"
    using fend fpos e by linarith
  have in_buf: "?base + (unat row + 1) * ?rb \<le> ?base + unat (m_mem_buf_bytes b)"
    using slot by simp
  have fend': "unat ?off + null_byte ?ns + nat (col_width (m_schema b ! unat col)) \<le> ?rb"
    using fend fpos by linarith
  show ?thesis
    using fp a2 off fend' in_row in_buf by (simp only: option.inject ex_simps simp_thms)
qed

lemma scenario_block_initialized: "block_initialized scenario_block"
  by (simp add: block_initialized_def compute_layout_def scenario_block_def scenario_schema_def
      field_bytes_def null_byte_def buffer_allocated_def)

theorem field_ptr_address_witness:
  "block_initialized scenario_block \<and>
   unat (2 :: size_t) < unat (m_capacity scenario_block) \<and>
   unat (1 :: size_t) < length (m_schema scenario_block) \<and>
   field_ptr scenario_block 2 1 = Some 4145"
proof -
  have r: "unat (2 :: size_t) < unat (m_capacity scenario_block)"
    by (simp add: scenario_block_def)
  have c: "unat (1 :: size_t) < length (m_schema scenario_block)"
    by (simp add: scenario_block_def scenario_schema_def)
  from field_ptr_address[OF scenario_block_initialized r c]
  obtain a where f: "field_ptr scenario_block 2 1 = Some a"
    and u: "unat a = unat (m_mem_buf scenario_block)
              + unat (2 :: size_t) * unat (m_mem_row_bytes scenario_block)
              + unat (m_field_offset_in_memory scenario_block ! unat (1 :: size_t))"
    by blast
  have "unat a = unat (4145 :: size_t)" using u by (simp add: scenario_block_def)
  then have "a = 4145" by (simp only: word_unat_eq_iff)
  with f r c scenario_block_initialized show ?thesis by simp
qed

section \<open>Lifecycle: \<open>finalize\<close> and \<open>clear\<close>\<close>

lemma row_num_cursor_step [simp]: "row_num (cursor_step c b) = row_num b"
  by (cases c) (simp_all add: row_num_def pos_inc_def set_limit_def)

lemma row_num_cursor_run [simp]: "row_num (cursor_run cs b) = row_num b"
  by (induction cs arbitrary: b) simp_all

lemma set_row_clear [simp]: "set_row h (clear e d b) row_index row = set_row h b row_index row"
  by (simp add: set_row_def slot_in_buffer_def clear_def)

lemma fill_clear: "fill rs h (clear e d b) = fill rs h b"
  by (induction rs arbitrary: h) (auto split: option.splits)

text \<open>
  Claim C7. For every \<open>k\<close> of at most the capacity, \<open>finalize(k)\<close> succeeds and leaves a
  block with row count \<open>k\<close>, \<open>pos = 0\<close> and \<open>limit = k\<close>, the buffer and the layout as they
  were. The row count is set here and nowhere else in the cycle: the fill before it writes
  memory only, and no cursor call, \<open>set_pos\<close> or \<open>set_block_status\<close> after it changes it.
\<close>

theorem finalize_fixes_row_count:
  assumes "k \<le> m_capacity b"
  shows "\<exists>b'. finalize k b = Inr b' \<and>
      row_num b' = k \<and> pos b' = 0 \<and> limit b' = ucast k \<and> unat (limit b') = unat k \<and>
      unat (remaining b') = unat k \<and>
      m_capacity b' = m_capacity b \<and> m_mem_buf b' = m_mem_buf b \<and>
      m_mem_buf_bytes b' = m_mem_buf_bytes b \<and> m_mem_row_bytes b' = m_mem_row_bytes b \<and>
      m_field_offset_in_memory b' = m_field_offset_in_memory b \<and>
      block_status b' = block_status b \<and>
      row_num (cursor_run cs b') = k \<and> row_num (set_pos p b') = k \<and>
      row_num (set_block_status s b') = k"
proof -
  let ?b = "b\<lparr>m_info := (m_info b)\<lparr>info_row_num := k\<rparr>, m_pos := 0, m_limit := ucast k\<rparr>"
  have f: "finalize k b = Inr ?b" using assms by (simp add: finalize_def not_less)
  have rn: "row_num ?b = k" by (simp add: row_num_def)
  have "row_num (cursor_run cs ?b) = k" by (simp only: row_num_cursor_run rn)
  then show ?thesis
    using f by (simp add: row_num_def pos_def limit_def remaining_def block_status_def
        set_pos_def set_block_status_def)
qed

theorem finalize_fixes_row_count_witness:
  "(3 :: uint32_t) \<le> m_capacity scenario_block \<and>
   (case finalize 3 scenario_block of Inl e \<Rightarrow> False
    | Inr b' \<Rightarrow> row_num b' = 3 \<and> pos b' = 0 \<and> limit b' = 3 \<and>
        row_num (cursor_run [Set_limit 2, Pos_inc] b') = 3)"
proof -
  have h: "(3 :: uint32_t) \<le> m_capacity scenario_block" by (simp add: scenario_block_def)
  from finalize_fixes_row_count[OF h, of "[Set_limit 2, Pos_inc]"]
  obtain b' where "finalize 3 scenario_block = Inr b'" "row_num b' = 3" "pos b' = 0"
    "limit b' = ucast (3 :: uint32_t)" "row_num (cursor_run [Set_limit 2, Pos_inc] b') = 3"
    by blast
  then show ?thesis using h by simp
qed

text \<open>
  Claim C6. \<open>clear()\<close> resets \<open>pos\<close> and \<open>limit\<close> to 0, and the row count and the status
  to those of the empty-but-allocated state (\<open>e\<close> and \<open>d\<close>), and keeps the buffer, its size,
  the row stride, the capacity and the layout. A refill after it writes the same memory as
  without it, and a \<open>finalize(k)\<close> after it, for \<open>k\<close> of at most the capacity, gives row
  count \<open>k\<close>, \<open>pos = 0\<close> and \<open>limit = k\<close>: the result does not depend on the row count
  \<open>n\<close>, the position \<open>p\<close>, the limit \<open>l\<close> and the status \<open>s\<close> the previous cycle left
  behind.
\<close>

theorem clear_resets_for_reuse:
  "pos (clear e d b) = 0 \<and> limit (clear e d b) = 0 \<and> remaining (clear e d b) = 0 \<and>
   has_remaining (clear e d b) = False \<and> row_num (clear e d b) = e \<and>
   block_status (clear e d b) = d \<and>
   m_mem_buf (clear e d b) = m_mem_buf b \<and> m_mem_buf_bytes (clear e d b) = m_mem_buf_bytes b \<and>
   m_mem_row_bytes (clear e d b) = m_mem_row_bytes b \<and> m_capacity (clear e d b) = m_capacity b \<and>
   m_field_offset_in_memory (clear e d b) = m_field_offset_in_memory b \<and>
   m_schema (clear e d b) = m_schema b \<and>
   fill rs h (clear e d b) = fill rs h b \<and>
   (k \<le> m_capacity b \<longrightarrow>
      (\<exists>b'. finalize k (clear e d b) = Inr b' \<and> row_num b' = k \<and> pos b' = 0 \<and>
            limit b' = ucast k)) \<and>
   finalize k (clear e d (b\<lparr>m_info := (m_info b)\<lparr>info_row_num := n\<rparr>, m_pos := p, m_limit := l,
                            m_block_status := s\<rparr>))
     = finalize k (clear e d b)"
proof -
  have 1: "k \<le> m_capacity b \<longrightarrow>
      (\<exists>b'. finalize k (clear e d b) = Inr b' \<and> row_num b' = k \<and> pos b' = 0 \<and>
            limit b' = ucast k)"
    by (auto simp: finalize_def clear_def row_num_def pos_def limit_def)
  have 2: "finalize k (clear e d (b\<lparr>m_info := (m_info b)\<lparr>info_row_num := n\<rparr>, m_pos := p,
               m_limit := l, m_block_status := s\<rparr>)) = finalize k (clear e d b)"
    by (simp add: finalize_def clear_def)
  have 3: "fill rs h (clear e d b) = fill rs h b" by (rule fill_clear)
  show ?thesis
    using 1 2 3 by (simp add: clear_def pos_def limit_def remaining_def has_remaining_def
        row_num_def block_status_def)
qed

theorem clear_resets_for_reuse_witness:
  "(3 :: uint32_t) \<le> m_capacity (pos_inc scenario_block) \<and>
   pos (clear 4 2 (pos_inc scenario_block)) = 0 \<and>
   limit (clear 4 2 (pos_inc scenario_block)) = 0 \<and>
   (case finalize 3 (clear 4 2 (pos_inc scenario_block)) of Inl e \<Rightarrow> False
    | Inr b' \<Rightarrow> row_num b' = 3 \<and> pos b' = 0 \<and> limit b' = 3)"
proof -
  have h: "(3 :: uint32_t) \<le> m_capacity (pos_inc scenario_block)"
    by (simp add: scenario_block_def pos_inc_def)
  from clear_resets_for_reuse[of 4 2 "pos_inc scenario_block" "[]" scenario_memory 3 0 0 0 0] h
  obtain b' where "finalize 3 (clear 4 2 (pos_inc scenario_block)) = Inr b'" "row_num b' = 3"
    "pos b' = 0" "limit b' = ucast (3 :: uint32_t)"
    "pos (clear 4 2 (pos_inc scenario_block)) = 0"
    "limit (clear 4 2 (pos_inc scenario_block)) = 0"
    by blast
  then show ?thesis using h by simp
qed

section \<open>Frame of the read accessors\<close>

text \<open>
  Claim C10. Every read accessor (\<open>get_row\<close>, \<open>field_ptr\<close>, \<open>row_num\<close>, \<open>capacity\<close>,
  \<open>pos\<close>, \<open>limit\<close>, \<open>remaining\<close>, \<open>has_remaining\<close>, \<open>block_status\<close>) leaves the block
  with all its members and the whole memory, so the buffer contents, as they were; \<open>get_row\<close>
  changes the cursor of the caller, which it attaches to the row, and nothing else; the other
  accessors leave the cursor alone too.
\<close>

theorem read_accessor_frame:
  "w_block (snd (read_accessor c w)) = w_block w \<and>
   w_mem (snd (read_accessor c w)) = w_mem w \<and>
   w_cursor (snd (read_accessor c w)) =
     (case c of
        Get_row row_index \<Rightarrow>
          attach (m_mem_buf (w_block w) + ucast row_index * m_mem_row_bytes (w_block w))
            (w_cursor w)
      | _ \<Rightarrow> w_cursor w)"
  by (cases c) (simp_all add: get_row_def)

theorem read_accessor_frame_witness:
  "w_block (snd (read_accessor (Get_row 2)
      \<lparr>w_mem = scenario_memory, w_block = scenario_block, w_cursor = helper_cursor0\<rparr>))
     = scenario_block \<and>
   w_mem (snd (read_accessor (Get_row 2)
      \<lparr>w_mem = scenario_memory, w_block = scenario_block, w_cursor = helper_cursor0\<rparr>))
     = scenario_memory \<and>
   w_cursor (snd (read_accessor (Get_row 2)
      \<lparr>w_mem = scenario_memory, w_block = scenario_block, w_cursor = helper_cursor0\<rparr>))
     = \<lparr>row_ptr = 4140\<rparr>"
  using read_accessor_frame[of "Get_row 2"
      "\<lparr>w_mem = scenario_memory, w_block = scenario_block, w_cursor = helper_cursor0\<rparr>"]
  by (simp add: attach_def helper_cursor0_def scenario_block_def)

end
